theory Spec2Isabelle
  imports
    Complex_Main
    "HOL-Library.Sublist"
    "HOL-Library.Multiset"
    "HOL-Library.List_Lexorder"
begin

section \<open>Host operations used by script.js\<close>

text \<open>
  A string is the list of its UTF-16 code units. \<open>ascii\<close> gives the string of a literal
  written in ASCII.
\<close>

type_synonym code_unit = nat

type_synonym str = "code_unit list"

definition ascii :: "string \<Rightarrow> str" where
  "ascii s = map of_char s"

text \<open>
  \<^verbatim>\<open>String.prototype.trim\<close> removes, from both ends, the white space and line terminators
  of ECMAScript: tab, line feed, vertical tab, form feed, carriage return, space, no-break
  space (U+00A0), U+1680, U+2000 to U+200A, U+2028, U+2029, U+202F, U+205F, U+3000 and the
  byte order mark (U+FEFF).
\<close>

definition is_space :: "code_unit \<Rightarrow> bool" where
  "is_space c \<longleftrightarrow>
     c \<in> {9, 10, 11, 12, 13, 32, 160, 5760, 8232, 8233, 8239, 8287, 12288, 65279} \<or>
     (8192 \<le> c \<and> c \<le> 8202)"

definition trim :: "str \<Rightarrow> str" where
  "trim s = rev (dropWhile is_space (rev (dropWhile is_space s)))"

definition startsWith :: "str \<Rightarrow> str \<Rightarrow> bool" where
  "startsWith s t = prefix t s"

text \<open>\<^verbatim>\<open>s.includes(t)\<close>: \<open>t\<close> occurs in \<open>s\<close> as a contiguous run, searched from the left.\<close>

fun includes_str :: "str \<Rightarrow> str \<Rightarrow> bool" where
  "includes_str [] t = (t = [])"
| "includes_str (c # cs) t = (prefix t (c # cs) \<or> includes_str cs t)"

text \<open>
  What the host supplies and the script cannot compute: \<^verbatim>\<open>String.prototype.toLowerCase\<close>,
  the lower-casing of Unicode, and \<^verbatim>\<open>String.prototype.localeCompare\<close>, the collation of
  the locale. Both are parameters of the model.
\<close>

record host =
  toLowerCase :: "str \<Rightarrow> str"
  localeCompare :: "str \<Rightarrow> str \<Rightarrow> real"

text \<open>The title contains the term, upper and lower case taken as the same.\<close>

definition contains_ignoring_case :: "host \<Rightarrow> str \<Rightarrow> str \<Rightarrow> bool" where
  "contains_ignoring_case h s t = includes_str (toLowerCase h s) (toLowerCase h t)"

text \<open>
  \<^verbatim>\<open>Array.prototype.slice(start, end)\<close>: a negative argument counts from the end, both
  arguments are clamped to the length, and the elements at the indices from the clamped
  start up to the clamped end are copied.
\<close>

definition relative_index :: "int \<Rightarrow> int \<Rightarrow> int" where
  "relative_index len i = (if i < 0 then max (len + i) 0 else min i len)"

definition slice_indices :: "nat \<Rightarrow> int \<Rightarrow> int \<Rightarrow> nat list" where
  "slice_indices len start stop =
     [nat (relative_index (int len) start) ..< nat (relative_index (int len) stop)]"

definition slice :: "'a list \<Rightarrow> int \<Rightarrow> int \<Rightarrow> 'a list" where
  "slice xs start stop = map (\<lambda>i. xs ! i) (slice_indices (length xs) start stop)"

text \<open>
  \<^verbatim>\<open>Array.prototype.sort(compare)\<close>: the sort is stable, \<open>a\<close> comes before \<open>b\<close> when
  \<open>compare a b < 0\<close> and after it when \<open>compare a b > 0\<close>. For a consistent comparator
  the result is determined by these two rules; it is computed here by insertion from the
  right.
\<close>

fun insert_by :: "('a \<Rightarrow> 'a \<Rightarrow> real) \<Rightarrow> 'a \<Rightarrow> 'a list \<Rightarrow> 'a list" where
  "insert_by cmp x [] = [x]"
| "insert_by cmp x (y # ys) = (if cmp x y \<le> 0 then x # y # ys else y # insert_by cmp x ys)"

definition array_sort :: "('a \<Rightarrow> 'a \<Rightarrow> real) \<Rightarrow> 'a list \<Rightarrow> 'a list" where
  "array_sort cmp xs = foldr (insert_by cmp) xs []"

text \<open>
  A consistent comparator: the sign of \<open>cmp a b\<close> is the opposite of the sign of
  \<open>cmp b a\<close>, and "not after" is transitive.
\<close>

definition consistent :: "('a \<Rightarrow> 'a \<Rightarrow> real) \<Rightarrow> bool" where
  "consistent cmp \<longleftrightarrow>
     (\<forall>a b. (cmp a b < 0) = (cmp b a > 0)) \<and>
     (\<forall>a b c. cmp a b \<le> 0 \<and> cmp b c \<le> 0 \<longrightarrow> cmp a c \<le> 0)"

text \<open>
  A host to run the page with: it lower-cases the letters A to Z and compares strings by
  their code units. On strings of ASCII characters it lower-cases as every host does.
\<close>

definition asciiLower :: "str \<Rightarrow> str" where
  "asciiLower s = map (\<lambda>c. if 65 \<le> c \<and> c \<le> 90 then c + 32 else c) s"

definition codeCompare :: "str \<Rightarrow> str \<Rightarrow> real" where
  "codeCompare a b = (if a < b then - 1 else if a = b then 0 else 1)"

definition asciiHost :: host where
  "asciiHost = \<lparr>toLowerCase = asciiLower, localeCompare = codeCompare\<rparr>"

text \<open>
  A JavaScript number that results from \<^verbatim>\<open>Math.ceil(length / itemsPerPage)\<close>: an integer,
  \<^verbatim>\<open>Infinity\<close> (a positive length divided by zero) or \<^verbatim>\<open>NaN\<close> (zero divided by zero).
\<close>

datatype number = Fin int | Infinity | NaN

definition ceil_quotient :: "nat \<Rightarrow> int \<Rightarrow> number" where
  "ceil_quotient n d =
     (if d = 0 then (if n = 0 then NaN else Infinity) else Fin (- ((- int n) div d)))"

fun less_number :: "int \<Rightarrow> number \<Rightarrow> bool" where
  "less_number i (Fin t) = (i < t)"
| "less_number i Infinity = True"
| "less_number i NaN = False"

fun greater_eq_number :: "int \<Rightarrow> number \<Rightarrow> bool" where
  "greater_eq_number i (Fin t) = (i \<ge> t)"
| "greater_eq_number i Infinity = False"
| "greater_eq_number i NaN = False"

section \<open>Data model\<close>

text \<open>
  A product as the catalog API returns it. \<open>description\<close>, \<open>category\<close> (the name of the
  category object) and \<open>images\<close> may be absent; the entries of \<open>images\<close> are strings. The
  price is a number, taken as a real: the comparator of the sort uses only the sign of a
  difference of two prices.
\<close>

record product =
  ident :: int
  title :: str
  price :: real
  description :: "str option"
  category :: "str option"
  images :: "str list option"

datatype direction = Asc | Desc

record sort_config =
  column :: "str option"
  direction :: direction

text \<open>The fixed captions of the page, and a cell that shows a caption or a string.\<close>

datatype caption = LoadError | NoProductsFound | NoData | NoDescription | OtherCategory

datatype cell = Caption caption | Str str

record row =
  row_id :: int
  row_image :: str
  row_title :: str
  row_description :: cell
  row_price :: real
  row_category :: cell

datatype table_body = StaticMarkup | MessageRow caption | Rows "row list"

datatype page_info = StaticText | CaptionText caption | PageOf int number

text \<open>
  The globals of the script and the parts of the document it writes. The two arrays are
  references into a store of arrays, so that copying and sorting in place can be told
  apart.
\<close>

type_synonym addr = nat

record state =
  heap :: "addr \<Rightarrow> product list"
  allProducts :: addr
  filteredProducts :: addr
  currentPage :: int
  itemsPerPage :: int
  sortConfig :: sort_config
  tableBody :: table_body
  pageInfo :: page_info
  prevBtn_disabled :: bool
  nextBtn_disabled :: bool
  loadingIndicator_active :: bool

definition all_list :: "state \<Rightarrow> product list" where
  "all_list s = heap s (allProducts s)"

definition filtered_list :: "state \<Rightarrow> product list" where
  "filtered_list s = heap s (filteredProducts s)"

text \<open>
  A new array gets an address that neither global refers to; an array that no global
  refers to any more cannot be observed.
\<close>

definition fresh :: "state \<Rightarrow> addr" where
  "fresh s = Suc (max (allProducts s) (filteredProducts s))"

section \<open>Rendering\<close>

definition showLoading :: "bool \<Rightarrow> state \<Rightarrow> state" where
  "showLoading active s = s\<lparr>loadingIndicator_active := active\<rparr>"

definition placeholder :: str where
  "placeholder = ascii ''https://via.placeholder.com/100?text=No+Image''"

definition imageUrl :: "product \<Rightarrow> str" where
  "imageUrl p =
     (case images p of
        None \<Rightarrow> placeholder
      | Some [] \<Rightarrow> placeholder
      | Some (firstImage # _) \<Rightarrow>
          (let u = trim firstImage
           in if u = [] \<or> \<not> startsWith u (ascii ''http'') then placeholder else u))"

text \<open>The row number is passed by \<open>renderTable\<close> and not shown: the first cell is the identifier.\<close>

definition createTableRow :: "product \<Rightarrow> int \<Rightarrow> row" where
  "createTableRow p rowNumber =
     \<lparr>row_id = ident p,
      row_image = imageUrl p,
      row_title = title p,
      row_description =
        (case description p of
           None \<Rightarrow> Caption NoDescription
         | Some d \<Rightarrow> if d = [] then Caption NoDescription else Str d),
      row_price = price p,
      row_category =
        (case category p of
           None \<Rightarrow> Caption OtherCategory
         | Some n \<Rightarrow> if n = [] then Caption OtherCategory else Str n)\<rparr>"

definition totalPages :: "state \<Rightarrow> number" where
  "totalPages s = ceil_quotient (length (filtered_list s)) (itemsPerPage s)"

definition updatePaginationControls :: "state \<Rightarrow> state" where
  "updatePaginationControls s =
     s\<lparr>pageInfo :=
         (if filtered_list s = [] then CaptionText NoData
          else PageOf (currentPage s) (totalPages s)),
       prevBtn_disabled := (currentPage s = 1),
       nextBtn_disabled :=
         (greater_eq_number (currentPage s) (totalPages s) \<or> filtered_list s = [])\<rparr>"

definition startIndex :: "state \<Rightarrow> int" where
  "startIndex s = (currentPage s - 1) * itemsPerPage s"

definition endIndex :: "state \<Rightarrow> int" where
  "endIndex s = startIndex s + itemsPerPage s"

definition pageIndices :: "state \<Rightarrow> nat list" where
  "pageIndices s = slice_indices (length (filtered_list s)) (startIndex s) (endIndex s)"

definition pageData :: "state \<Rightarrow> product list" where
  "pageData s = slice (filtered_list s) (startIndex s) (endIndex s)"

definition renderTable :: "state \<Rightarrow> state" where
  "renderTable s =
     (if pageData s = [] then
        updatePaginationControls (s\<lparr>tableBody := MessageRow NoProductsFound\<rparr>)
      else
        updatePaginationControls
          (s\<lparr>tableBody :=
               Rows (map (\<lambda>(p, index). createTableRow p (startIndex s + int index + 1))
                      (zip (pageData s) [0 ..< length (pageData s)]))\<rparr>))"

section \<open>Filtering, sorting and paging\<close>

definition filterProducts :: "host \<Rightarrow> str \<Rightarrow> state \<Rightarrow> state" where
  "filterProducts h searchTerm s =
     renderTable
       (s\<lparr>heap := (heap s)
            (fresh s :=
               (if searchTerm = [] then all_list s
                else filter (\<lambda>p. includes_str (toLowerCase h (title p)) searchTerm)
                       (all_list s))),
          filteredProducts := fresh s,
          currentPage := 1\<rparr>)"

text \<open>The listener of the search box lower-cases and trims what was typed.\<close>

definition searchInput :: "host \<Rightarrow> str \<Rightarrow> state \<Rightarrow> state" where
  "searchInput h v s = filterProducts h (trim (toLowerCase h v)) s"

text \<open>The comparator of \<open>sortProducts\<close>; \<^verbatim>\<open>parseFloat\<close> of a number is the number.\<close>

definition compareProducts :: "host \<Rightarrow> sort_config \<Rightarrow> product \<Rightarrow> product \<Rightarrow> real" where
  "compareProducts h cfg a b =
     (if column cfg = Some (ascii ''title'') then
        (if direction cfg = Asc
         then localeCompare h (toLowerCase h (title a)) (toLowerCase h (title b))
         else localeCompare h (toLowerCase h (title b)) (toLowerCase h (title a)))
      else if column cfg = Some (ascii ''price'') then
        (if direction cfg = Asc then price a - price b else price b - price a)
      else 0)"

definition sortProducts :: "host \<Rightarrow> state \<Rightarrow> state" where
  "sortProducts h s =
     s\<lparr>heap := (heap s)
          (filteredProducts s :=
             array_sort (compareProducts h (sortConfig s)) (filtered_list s))\<rparr>"

definition handleSort :: "host \<Rightarrow> str \<Rightarrow> state \<Rightarrow> state" where
  "handleSort h col s =
     (let cfg =
            (if column (sortConfig s) = Some col then
               (sortConfig s)\<lparr>direction :=
                  (if direction (sortConfig s) = Asc then Desc else Asc)\<rparr>
             else \<lparr>column = Some col, direction = Asc\<rparr>)
      in renderTable ((sortProducts h (s\<lparr>sortConfig := cfg\<rparr>))\<lparr>currentPage := 1\<rparr>))"

text \<open>The listener of the page-size select; \<open>n\<close> is the parsed value of the chosen option.\<close>

definition itemsPerPageChange :: "int \<Rightarrow> state \<Rightarrow> state" where
  "itemsPerPageChange n s = renderTable (s\<lparr>itemsPerPage := n, currentPage := 1\<rparr>)"

text \<open>The two navigation listeners; scrolling to the top is not part of the state.\<close>

definition previousPage :: "state \<Rightarrow> state" where
  "previousPage s =
     (if currentPage s > 1 then renderTable (s\<lparr>currentPage := currentPage s - 1\<rparr>) else s)"

definition nextPage :: "state \<Rightarrow> state" where
  "nextPage s =
     (if less_number (currentPage s) (totalPages s)
      then renderTable (s\<lparr>currentPage := currentPage s + 1\<rparr>) else s)"

section \<open>Loading the catalog\<close>

text \<open>
  What the network gives back: the request is rejected, or a response arrives with its
  \<open>ok\<close> flag and a body that parses to a product array or does not parse.
\<close>

datatype body = Malformed | Json "product list"

datatype fetch_outcome = TransportFailure | HttpResponse bool body

datatype error = FetchRejected | FailedToFetchProducts | JsonRejected

text \<open>The \<^verbatim>\<open>try\<close> block, from the first \<^verbatim>\<open>await\<close> on; a \<^verbatim>\<open>throw\<close> is the left summand.\<close>

fun getAll_try :: "fetch_outcome \<Rightarrow> state \<Rightarrow> error + state" where
  "getAll_try TransportFailure s = Inl FetchRejected"
| "getAll_try (HttpResponse ok b) s =
     (if \<not> ok then Inl FailedToFetchProducts
      else case b of
        Malformed \<Rightarrow> Inl JsonRejected
      | Json products \<Rightarrow>
          (let s1 = s\<lparr>heap := (heap s)(fresh s := products), allProducts := fresh s\<rparr>;
               s2 = s1\<lparr>heap := (heap s1)(fresh s1 := all_list s1),
                       filteredProducts := fresh s1,
                       currentPage := 1\<rparr>
           in Inr (showLoading False (renderTable s2))))"

definition getAll_resume :: "fetch_outcome \<Rightarrow> state \<Rightarrow> state" where
  "getAll_resume outcome s =
     (case getAll_try outcome s of
        Inr s' \<Rightarrow> s'
      | Inl e \<Rightarrow> (showLoading False s)\<lparr>tableBody := MessageRow LoadError\<rparr>)"

definition getAll :: "fetch_outcome \<Rightarrow> state \<Rightarrow> state" where
  "getAll outcome s = getAll_resume outcome (showLoading True s)"

section \<open>Runs of the page\<close>

text \<open>
  The script starts with two distinct empty arrays, page 1, page size 10 and no sort
  column; what the document shows at that moment is not fixed by the script. Every
  listener runs to its end before the next one starts; the fetch is suspended between its
  start and its completion, and other listeners may run in between.
\<close>

definition initial :: "state \<Rightarrow> bool" where
  "initial s \<longleftrightarrow>
     allProducts s = 0 \<and> filteredProducts s = 1 \<and> heap s 0 = [] \<and> heap s 1 = [] \<and>
     currentPage s = 1 \<and> itemsPerPage s = 10 \<and>
     sortConfig s = \<lparr>column = None, direction = Asc\<rparr>"

datatype event =
    Typed str
  | PageSizeChosen int
  | PrevClicked
  | NextClicked
  | SortClicked str
  | FetchStarted
  | FetchSettled fetch_outcome

fun step :: "host \<Rightarrow> event \<Rightarrow> state \<Rightarrow> state" where
  "step h (Typed v) s = searchInput h v s"
| "step h (PageSizeChosen n) s = itemsPerPageChange n s"
| "step h PrevClicked s = previousPage s"
| "step h NextClicked s = nextPage s"
| "step h (SortClicked col) s = handleSort h col s"
| "step h FetchStarted s = showLoading True s"
| "step h (FetchSettled outcome) s = getAll_resume outcome s"

inductive reachable :: "host \<Rightarrow> state \<Rightarrow> bool"
  for h :: host where
  reachable_initial: "initial s \<Longrightarrow> reachable h s"
| reachable_step: "reachable h s \<Longrightarrow> reachable h (step h e s)"

section \<open>A small catalog\<close>

definition apple :: product where
  "apple = \<lparr>ident = 1, title = ascii ''Apple Pie'', price = 30,
     description = Some (ascii ''Baked''), category = Some (ascii ''Food''),
     images = Some [ascii '' https://cdn.example.com/apple.png '']\<rparr>"

definition banana :: product where
  "banana = \<lparr>ident = 2, title = ascii ''banana'', price = 10, description = None,
     category = None, images = Some [ascii ''//cdn.example.com/banana.png'']\<rparr>"

definition cherry :: product where
  "cherry = \<lparr>ident = 3, title = ascii ''Cherry'', price = 20, description = Some [],
     category = Some (ascii ''Fruit''), images = None\<rparr>"

definition grape :: product where
  "grape = \<lparr>ident = 4, title = ascii ''grape'', price = 10,
     description = Some (ascii ''Seedless''), category = None, images = Some []\<rparr>"

definition catalog :: "product list" where
  "catalog = [cherry, apple, grape, banana]"

definition boot :: state where
  "boot = \<lparr>heap = (\<lambda>_. []), allProducts = 0, filteredProducts = 1, currentPage = 1,
     itemsPerPage = 10, sortConfig = \<lparr>column = None, direction = Asc\<rparr>,
     tableBody = StaticMarkup, pageInfo = StaticText, prevBtn_disabled = False,
     nextBtn_disabled = False, loadingIndicator_active = False\<rparr>"

text \<open>The page after the catalog has arrived, and the same with two rows to a page.\<close>

definition loaded :: state where
  "loaded = getAll (HttpResponse True (Json catalog)) boot"

definition paged :: state where
  "paged = itemsPerPageChange 2 loaded"

section \<open>Auxiliary notions\<close>

text \<open>The sort configuration that \<open>handleSort\<close> switches to.\<close>

definition next_config :: "str \<Rightarrow> sort_config \<Rightarrow> sort_config" where
  "next_config col cfg =
     (if column cfg = Some col
      then cfg\<lparr>direction := (if direction cfg = Asc then Desc else Asc)\<rparr>
      else \<lparr>column = Some col, direction = Asc\<rparr>)"

text \<open>The page number is in the range of the pager, for a positive page size.\<close>

definition page_ok :: "state \<Rightarrow> bool" where
  "page_ok s \<longleftrightarrow>
     1 \<le> currentPage s \<and>
     (0 < itemsPerPage s \<longrightarrow>
        currentPage s
          \<le> max 1 \<lceil>real (length (filtered_list s)) / real_of_int (itemsPerPage s)\<rceil>)"

text \<open>With nothing to show, the page is the first one.\<close>

definition first_if_empty :: "state \<Rightarrow> bool" where
  "first_if_empty s \<longleftrightarrow> (filtered_list s = [] \<longrightarrow> currentPage s = 1)"

text \<open>The two globals refer to different arrays.\<close>

definition separate :: "state \<Rightarrow> bool" where
  "separate s \<longleftrightarrow> allProducts s \<noteq> filteredProducts s"

text \<open>Every part of a string that the host has lower-cased is in lower case.\<close>

definition lower_case_parts :: "host \<Rightarrow> bool" where
  "lower_case_parts h \<longleftrightarrow> (\<forall>s t. includes_str (toLowerCase h s) t \<longrightarrow> toLowerCase h t = t)"

section \<open>Sorting with a comparator\<close>

lemma consistent_anti: "consistent cmp \<Longrightarrow> (cmp a b < 0) = (cmp b a > 0)"
  unfolding consistent_def by blast

lemma consistent_total: "consistent cmp \<Longrightarrow> \<not> cmp a b \<le> 0 \<Longrightarrow> cmp b a \<le> 0"
  using consistent_anti [of cmp b a] by simp

lemma consistent_refl: "consistent cmp \<Longrightarrow> cmp a a = 0"
  using consistent_anti [of cmp a a] by (cases "cmp a a < 0") auto

lemma consistent_both: "consistent cmp \<Longrightarrow> cmp a b \<le> 0 \<Longrightarrow> cmp b a \<le> 0 \<Longrightarrow> cmp a b = 0"
  using consistent_anti [of cmp a b] by (cases "cmp a b < 0") auto

lemma consistent_trans: "consistent cmp \<Longrightarrow> cmp a b \<le> 0 \<Longrightarrow> cmp b c \<le> 0 \<Longrightarrow> cmp a c \<le> 0"
  unfolding consistent_def by blast

lemma consistent_sym: "consistent cmp \<Longrightarrow> cmp a b = 0 \<Longrightarrow> cmp b a = 0"
  using consistent_anti [of cmp a b] consistent_anti [of cmp b a]
  by (cases "cmp b a < 0"; cases "cmp b a > 0") auto

lemma consistent_flip: "consistent cmp \<Longrightarrow> consistent (\<lambda>a b. cmp b a)"
  unfolding consistent_def by (intro conjI allI impI) (simp, blast)

lemma mset_insert_by: "mset (insert_by cmp x ys) = add_mset x (mset ys)"
  by (induction ys) simp_all

lemma mset_array_sort: "mset (array_sort cmp xs) = mset xs"
  by (induction xs) (simp_all add: array_sort_def mset_insert_by)

lemma set_insert_by: "set (insert_by cmp x ys) = insert x (set ys)"
  by (induction ys) auto

lemma sorted_insert_by:
  assumes "consistent cmp" and "sorted_wrt (\<lambda>a b. cmp a b \<le> 0) ys"
  shows "sorted_wrt (\<lambda>a b. cmp a b \<le> 0) (insert_by cmp x ys)"
  using assms(2)
proof (induction ys)
  case Nil
  show ?case by simp
next
  case (Cons y ys)
  show ?case
  proof (cases "cmp x y \<le> 0")
    case True
    have "\<forall>z\<in>set ys. cmp x z \<le> 0"
      using Cons.prems True consistent_trans [OF assms(1)] by auto
    with True Cons.prems show ?thesis by simp
  next
    case False
    then have "cmp y x \<le> 0" by (rule consistent_total [OF assms(1)])
    with False Cons show ?thesis by (auto simp: set_insert_by)
  qed
qed

lemma sorted_array_sort:
  "consistent cmp \<Longrightarrow> sorted_wrt (\<lambda>a b. cmp a b \<le> 0) (array_sort cmp xs)"
  by (induction xs) (simp_all add: array_sort_def sorted_insert_by)

lemma filter_insert_by:
  "(\<And>y. y \<in> set ys \<Longrightarrow> P x \<Longrightarrow> P y \<Longrightarrow> cmp x y \<le> 0) \<Longrightarrow>
     filter P (insert_by cmp x ys) = filter P (x # ys)"
  by (induction ys) auto

lemma filter_array_sort:
  assumes "\<And>x y. P x \<Longrightarrow> P y \<Longrightarrow> cmp x y \<le> 0"
  shows "filter P (array_sort cmp xs) = filter P xs"
proof (induction xs)
  case Nil
  show ?case by (simp add: array_sort_def)
next
  case (Cons x xs)
  have "filter P (insert_by cmp x (array_sort cmp xs)) = filter P (x # array_sort cmp xs)"
    by (rule filter_insert_by) (rule assms)
  with Cons show ?case by (simp add: array_sort_def)
qed

lemma array_sort_sorted:
  "sorted_wrt (\<lambda>a b. cmp a b \<le> 0) xs \<Longrightarrow> array_sort cmp xs = xs"
proof (induction xs)
  case Nil
  show ?case by (simp add: array_sort_def)
next
  case (Cons x xs)
  then have "array_sort cmp xs = xs" by simp
  then have "array_sort cmp (x # xs) = insert_by cmp x xs" by (simp add: array_sort_def)
  also have "\<dots> = x # xs" using Cons.prems by (cases xs) simp_all
  finally show ?case .
qed

lemma stable_sorted_unique:
  assumes c: "consistent cmp"
  shows "sorted_wrt (\<lambda>a b. cmp a b \<le> 0) ys \<Longrightarrow> sorted_wrt (\<lambda>a b. cmp a b \<le> 0) zs \<Longrightarrow>
     (\<And>x. filter (\<lambda>y. cmp x y = 0) ys = filter (\<lambda>y. cmp x y = 0) zs) \<Longrightarrow> ys = zs"
proof (induction ys arbitrary: zs)
  case Nil
  have refl: "cmp z z = 0" for z
    by (rule consistent_refl [OF c])
  show ?case
  proof (cases zs)
    case Nil
    then show ?thesis by simp
  next
    case (Cons z zs')
    from Nil.prems(3) [of z] have "filter (\<lambda>y. cmp z y = 0) zs = []" by simp
    with Cons refl show ?thesis by simp
  qed
next
  case (Cons y ys)
  have refl: "cmp z z = 0" for z
    by (rule consistent_refl [OF c])
  have seg: "filter (\<lambda>u. cmp x u = 0) (y # ys) = filter (\<lambda>u. cmp x u = 0) zs" for x
    by (rule Cons.prems(3))
  from seg [of y] refl have "zs \<noteq> []" by auto
  then obtain z zs' where zs: "zs = z # zs'" by (cases zs) auto
  have "filter (\<lambda>u. cmp y u = 0) zs = y # filter (\<lambda>u. cmp y u = 0) ys"
    using seg [of y] refl [of y] by simp
  then have "y \<in> set (filter (\<lambda>u. cmp y u = 0) zs)" by simp
  then have yin: "y \<in> set zs" by simp
  have "filter (\<lambda>u. cmp z u = 0) (y # ys) = z # filter (\<lambda>u. cmp z u = 0) zs'"
    using seg [of z] refl [of z] zs by simp
  then have "z \<in> set (filter (\<lambda>u. cmp z u = 0) (y # ys))" by simp
  then have zin: "z \<in> set (y # ys)" by (simp only: set_filter) blast
  have zy: "cmp z y \<le> 0" using yin Cons.prems(2) zs refl [of y] by auto
  have yz: "cmp y z \<le> 0" using zin Cons.prems(1) refl [of z] by auto
  have "cmp y z = 0"
    using yz zy by (rule consistent_both [OF c])
  with seg [of y] refl [of y] zs have "y = z" by simp
  have "ys = zs'"
  proof (rule Cons.IH)
    show "sorted_wrt (\<lambda>a b. cmp a b \<le> 0) ys" using Cons.prems(1) by simp
    show "sorted_wrt (\<lambda>a b. cmp a b \<le> 0) zs'" using Cons.prems(2) zs by simp
    show "filter (\<lambda>u. cmp x u = 0) ys = filter (\<lambda>u. cmp x u = 0) zs'" for x
      using seg [of x] zs \<open>y = z\<close> by (simp split: if_splits)
  qed
  with \<open>y = z\<close> zs show ?case by simp
qed

lemma array_sort_flip:
  assumes c: "consistent cmp"
  shows "array_sort cmp (array_sort (\<lambda>a b. cmp b a) xs) = array_sort cmp xs"
proof (rule stable_sorted_unique [OF c])
  show "sorted_wrt (\<lambda>a b. cmp a b \<le> 0) (array_sort cmp (array_sort (\<lambda>a b. cmp b a) xs))"
    by (rule sorted_array_sort [OF c])
  show "sorted_wrt (\<lambda>a b. cmp a b \<le> 0) (array_sort cmp xs)"
    by (rule sorted_array_sort [OF c])
  fix x
  have eq: "cmp u v = 0" if "cmp x u = 0" "cmp x v = 0" for u v
  proof -
    have "cmp u x = 0" using that(1) by (rule consistent_sym [OF c])
    then have "cmp u v \<le> 0" using that(2) consistent_trans [OF c, of u x v] by simp
    have "cmp v x = 0" using that(2) by (rule consistent_sym [OF c])
    then have "cmp v u \<le> 0" using that(1) consistent_trans [OF c, of v x u] by simp
    with \<open>cmp u v \<le> 0\<close> show ?thesis
      by (rule consistent_both [OF c])
  qed
  have "filter (\<lambda>y. cmp x y = 0) (array_sort cmp (array_sort (\<lambda>a b. cmp b a) xs))
      = filter (\<lambda>y. cmp x y = 0) (array_sort (\<lambda>a b. cmp b a) xs)"
    by (rule filter_array_sort) (simp add: eq)
  also have "\<dots> = filter (\<lambda>y. cmp x y = 0) xs"
    by (rule filter_array_sort) (simp add: eq)
  also have "\<dots> = filter (\<lambda>y. cmp x y = 0) (array_sort cmp xs)"
    by (rule filter_array_sort [symmetric]) (simp add: eq)
  finally show "filter (\<lambda>y. cmp x y = 0) (array_sort cmp (array_sort (\<lambda>a b. cmp b a) xs))
      = filter (\<lambda>y. cmp x y = 0) (array_sort cmp xs)" .
qed

section \<open>Strings\<close>

lemma includes_str_sublist: "includes_str s t = sublist t s"
  by (induction s) (auto simp: sublist_Cons_right)

lemma includes_str_Nil: "includes_str s []"
  by (cases s) simp_all

lemma startsWith_append: "startsWith s t \<longleftrightarrow> (\<exists>r. s = t @ r)"
  by (simp add: startsWith_def prefix_def)

lemma dropWhile_all: "\<forall>c\<in>set xs. P c \<Longrightarrow> dropWhile P (xs @ ys) = dropWhile P ys"
  by (induction xs) simp_all

lemma dropWhile_none: "\<forall>c\<in>set xs. P c \<Longrightarrow> dropWhile P xs = []"
  by (induction xs) simp_all

lemma dropWhile_head: "xs \<noteq> [] \<Longrightarrow> \<not> P (hd xs) \<Longrightarrow> dropWhile P xs = xs"
  by (cases xs) simp_all

text \<open>What \<open>trim\<close> leaves of a string that is white space, a core, and white space.\<close>

lemma trim_surrounded:
  assumes pre: "\<forall>c\<in>set pre. is_space c" and post: "\<forall>c\<in>set post. is_space c"
    and core: "u = [] \<or> (\<not> is_space (hd u) \<and> \<not> is_space (last u))"
  shows "trim (pre @ u @ post) = u"
proof (cases "u = []")
  case True
  have a: "dropWhile is_space post = []"
    using post by (rule dropWhile_none)
  have "dropWhile is_space (pre @ post) = dropWhile is_space post"
    using pre by (rule dropWhile_all)
  with a have "dropWhile is_space (pre @ post) = []" by simp
  moreover have "pre @ u @ post = pre @ post" using True by simp
  ultimately have "trim (pre @ u @ post) = rev (dropWhile is_space (rev []))"
    by (simp only: trim_def)
  with True show ?thesis by simp
next
  case False
  with core have h: "\<not> is_space (hd u)" and l: "\<not> is_space (last u)" by simp_all
  have "dropWhile is_space (pre @ u @ post) = dropWhile is_space (u @ post)"
    using pre by (rule dropWhile_all)
  also have "\<dots> = u @ post"
    using False h by (simp add: dropWhile_head)
  finally have front: "dropWhile is_space (pre @ u @ post) = u @ post" .
  have "dropWhile is_space (rev post @ rev u) = dropWhile is_space (rev u)"
    using post by (simp add: dropWhile_all)
  also have "\<dots> = rev u"
    using False l by (simp add: dropWhile_head hd_rev)
  finally show ?thesis by (simp add: trim_def front)
qed

text \<open>Every string is white space, its trimmed core, and white space.\<close>

lemma trim_parts:
  obtains pre k post where "s = pre @ rev k @ post" and "trim s = rev k"
    and "\<forall>c\<in>set pre. is_space c" and "\<forall>c\<in>set post. is_space c"
    and "k = [] \<or> \<not> is_space (hd k)" and "k = [] \<or> \<not> is_space (last k)"
proof -
  define g where "g = dropWhile is_space s"
  define k where "k = dropWhile is_space (rev g)"
  define pre where "pre = takeWhile is_space s"
  define post where "post = rev (takeWhile is_space (rev g))"
  have s: "s = pre @ g" by (simp add: pre_def g_def)
  have "rev g = takeWhile is_space (rev g) @ k" by (simp add: k_def)
  then have "rev (rev g) = rev (takeWhile is_space (rev g) @ k)" by (rule arg_cong)
  then have g: "g = rev k @ post" by (simp add: post_def)
  have t: "trim s = rev k" by (simp add: trim_def k_def g_def)
  have p1: "\<forall>c\<in>set pre. is_space c" by (auto simp: pre_def dest: set_takeWhileD)
  have p2: "\<forall>c\<in>set post. is_space c" by (auto simp: post_def dest: set_takeWhileD)
  have hk: "k = [] \<or> \<not> is_space (hd k)"
  proof (cases "k = []")
    case True
    then show ?thesis by simp
  next
    case False
    then have "dropWhile is_space (rev g) \<noteq> []" unfolding k_def .
    then have "\<not> is_space (hd (dropWhile is_space (rev g)))" by (rule hd_dropWhile)
    then have "\<not> is_space (hd k)" unfolding k_def .
    then show ?thesis by (rule disjI2)
  qed
  have lk: "k = [] \<or> \<not> is_space (last k)"
  proof (cases "k = []")
    case True
    then show ?thesis by simp
  next
    case False
    then have "last k = last (rev g)"
      using \<open>rev g = takeWhile is_space (rev g) @ k\<close> by (metis last_appendR)
    also have "\<dots> = hd g" by (rule last_rev)
    finally have "last k = hd g" .
    moreover have "g \<noteq> []" using False g by auto
    then have "\<not> is_space (hd g)" unfolding g_def by (rule hd_dropWhile)
    ultimately show ?thesis by simp
  qed
  from s g have "s = pre @ rev k @ post" by simp
  then show ?thesis using t p1 p2 hk lk by (rule that)
qed

lemma trim_core:
  "trim s = [] \<or> (\<not> is_space (hd (trim s)) \<and> \<not> is_space (last (trim s)))"
proof -
  obtain pre k post where t: "trim s = rev k"
    and hk: "k = [] \<or> \<not> is_space (hd k)" and lk: "k = [] \<or> \<not> is_space (last k)"
    by (rule trim_parts)
  show ?thesis
  proof (cases "k = []")
    case True
    then show ?thesis by (simp add: t)
  next
    case False
    then show ?thesis using hk lk by (simp add: t hd_rev last_rev)
  qed
qed

lemma trim_decomposition:
  "\<exists>pre post. s = pre @ trim s @ post \<and> (\<forall>c\<in>set pre. is_space c) \<and> (\<forall>c\<in>set post. is_space c)"
proof -
  obtain pre k post where "s = pre @ rev k @ post" and "trim s = rev k"
    and "\<forall>c\<in>set pre. is_space c" and "\<forall>c\<in>set post. is_space c"
    by (rule trim_parts)
  then show ?thesis by metis
qed

text \<open>The host of the small catalog lower-cases to strings whose parts are in lower case.\<close>

lemma asciiLower_idem: "asciiLower (asciiLower s) = asciiLower s"
  by (simp add: asciiLower_def)

lemma asciiLower_part:
  assumes "includes_str (asciiLower s) t"
  shows "asciiLower t = t"
proof -
  have "sublist t (asciiLower s)"
    using assms by (simp add: includes_str_sublist)
  then have "set t \<subseteq> set (asciiLower s)" by (rule set_mono_sublist)
  then have "\<not> (65 \<le> c \<and> c \<le> 90)" if "c \<in> set t" for c
    using that by (auto simp: asciiLower_def)
  then show ?thesis by (simp add: asciiLower_def map_idI)
qed

section \<open>What rendering leaves alone\<close>

lemma updatePaginationControls_frame:
  "heap (updatePaginationControls s) = heap s"
  "allProducts (updatePaginationControls s) = allProducts s"
  "filteredProducts (updatePaginationControls s) = filteredProducts s"
  "currentPage (updatePaginationControls s) = currentPage s"
  "itemsPerPage (updatePaginationControls s) = itemsPerPage s"
  "sortConfig (updatePaginationControls s) = sortConfig s"
  "tableBody (updatePaginationControls s) = tableBody s"
  "loadingIndicator_active (updatePaginationControls s) = loadingIndicator_active s"
  by (simp_all add: updatePaginationControls_def)

lemma renderTable_frame:
  "heap (renderTable s) = heap s"
  "allProducts (renderTable s) = allProducts s"
  "filteredProducts (renderTable s) = filteredProducts s"
  "currentPage (renderTable s) = currentPage s"
  "itemsPerPage (renderTable s) = itemsPerPage s"
  "sortConfig (renderTable s) = sortConfig s"
  "loadingIndicator_active (renderTable s) = loadingIndicator_active s"
  by (simp_all add: renderTable_def updatePaginationControls_frame)

lemma renderTable_lists:
  "all_list (renderTable s) = all_list s"
  "filtered_list (renderTable s) = filtered_list s"
  by (simp_all add: all_list_def filtered_list_def renderTable_frame)

lemma fresh_neq:
  "fresh s \<noteq> allProducts s" "fresh s \<noteq> filteredProducts s"
  "allProducts s \<noteq> fresh s" "filteredProducts s \<noteq> fresh s"
  by (simp_all add: fresh_def max_def)

section \<open>filterProducts\<close>

lemma filterProducts_frame:
  "allProducts (filterProducts h t s) = allProducts s"
  "filteredProducts (filterProducts h t s) = fresh s"
  "currentPage (filterProducts h t s) = 1"
  "itemsPerPage (filterProducts h t s) = itemsPerPage s"
  "sortConfig (filterProducts h t s) = sortConfig s"
  "all_list (filterProducts h t s) = all_list s"
  by (simp_all add: filterProducts_def renderTable_frame all_list_def fresh_neq)

lemma filtered_list_filterProducts:
  "filtered_list (filterProducts h t s) =
     (if t = [] then all_list s
      else filter (\<lambda>p. includes_str (toLowerCase h (title p)) t) (all_list s))"
  by (simp add: filterProducts_def renderTable_frame filtered_list_def)

lemma filtered_list_filterProducts_uniform:
  "filtered_list (filterProducts h t s) =
     filter (\<lambda>p. includes_str (toLowerCase h (title p)) t) (all_list s)"
  by (simp add: filtered_list_filterProducts includes_str_Nil)

lemma catalog_loaded: "all_list loaded = catalog"
  by (simp add: loaded_def getAll_def getAll_resume_def showLoading_def all_list_def
      renderTable_frame fresh_def Let_def)

lemma toLowerCase_asciiHost: "toLowerCase asciiHost = asciiLower"
  by (simp add: asciiHost_def)

lemma localeCompare_asciiHost: "localeCompare asciiHost = codeCompare"
  by (simp add: asciiHost_def)

lemma toLowerCase_titles:
  "asciiLower (title apple) = ascii ''apple pie''" "asciiLower (title banana) = ascii ''banana''"
  "asciiLower (title cherry) = ascii ''cherry''" "asciiLower (title grape) = ascii ''grape''"
  by (simp_all add: apple_def banana_def cherry_def grape_def asciiLower_def ascii_def)

text \<open>Every part of a string that the host has lower-cased is in lower case.\<close>

lemma lower_case_parts_asciiHost: "lower_case_parts asciiHost"
  by (simp add: lower_case_parts_def toLowerCase_asciiHost asciiLower_part)

text \<open>
  C1, as the code has it. For every product list and every search term \<open>t\<close>, the result
  of \<open>filterProducts\<close> is the order-preserving subsequence of the list that consists of
  exactly the products whose lower-cased title contains \<open>t\<close> as it is given; the empty term
  gives the full list in its order. When \<open>t\<close> is in lower case, these are exactly the
  products whose title contains \<open>t\<close> case-insensitively; the listener of the search box
  passes the typed text lower-cased and trimmed. For every \<open>t\<close>, the title of each product
  of the result contains \<open>t\<close> case-insensitively, on a host that lower-cases to strings
  whose parts are in lower case.
\<close>

theorem filterProducts_matches:
  "subseq (filtered_list (filterProducts h t s)) (all_list s) \<and>
   filtered_list (filterProducts h t s)
     = filter (\<lambda>p. includes_str (toLowerCase h (title p)) t) (all_list s) \<and>
   filtered_list (filterProducts h [] s) = all_list s \<and>
   (toLowerCase h t = t \<longrightarrow>
      filtered_list (filterProducts h t s)
        = filter (\<lambda>p. contains_ignoring_case h (title p) t) (all_list s)) \<and>
   (toLowerCase h (trim (toLowerCase h v)) = trim (toLowerCase h v) \<longrightarrow>
      filtered_list (searchInput h v s)
        = filter (\<lambda>p. contains_ignoring_case h (title p) (trim (toLowerCase h v)))
            (all_list s)) \<and>
   (lower_case_parts h \<longrightarrow>
      (\<forall>p \<in> set (filtered_list (filterProducts h t s)).
         contains_ignoring_case h (title p) t))"
proof (intro conjI ballI impI)
  show "subseq (filtered_list (filterProducts h t s)) (all_list s)"
    by (simp add: filtered_list_filterProducts_uniform)
  show "filtered_list (filterProducts h t s)
      = filter (\<lambda>p. includes_str (toLowerCase h (title p)) t) (all_list s)"
    by (rule filtered_list_filterProducts_uniform)
  show "filtered_list (filterProducts h [] s) = all_list s"
    by (simp add: filtered_list_filterProducts)
  show "filtered_list (filterProducts h t s)
      = filter (\<lambda>p. contains_ignoring_case h (title p) t) (all_list s)"
    if "toLowerCase h t = t"
    using that by (simp add: filtered_list_filterProducts_uniform contains_ignoring_case_def)
  show "filtered_list (searchInput h v s)
      = filter (\<lambda>p. contains_ignoring_case h (title p) (trim (toLowerCase h v))) (all_list s)"
    if "toLowerCase h (trim (toLowerCase h v)) = trim (toLowerCase h v)"
    using that
    by (simp add: searchInput_def filtered_list_filterProducts_uniform
        contains_ignoring_case_def)
  show "contains_ignoring_case h (title p) t"
    if c: "lower_case_parts h" and p: "p \<in> set (filtered_list (filterProducts h t s))" for p
  proof -
    from p have i: "includes_str (toLowerCase h (title p)) t"
      by (simp add: filtered_list_filterProducts_uniform)
    with c have "toLowerCase h t = t" unfolding lower_case_parts_def by blast
    with i show ?thesis by (simp add: contains_ignoring_case_def)
  qed
qed

lemma lower_case_terms:
  "asciiLower (ascii ''pie'') = ascii ''pie''" "asciiLower (ascii '' PIE  '') = ascii '' pie  ''"
  "trim (ascii '' pie  '') = ascii ''pie''" "asciiLower (ascii ''A'') = ascii ''a''"
  "asciiLower (ascii ''an '') = ascii ''an ''" "trim (ascii ''an '') = ascii ''an''"
  "asciiLower (ascii ''an'') = ascii ''an''" "asciiLower (ascii ''zzz'') = ascii ''zzz''"
  "trim (ascii ''zzz'') = ascii ''zzz''"
  by (simp_all add: asciiLower_def ascii_def trim_def is_space_def)

lemma catalog_matches:
  "filter (\<lambda>p. includes_str (asciiLower (title p)) (ascii ''pie'')) catalog = [apple]"
  "filter (\<lambda>p. includes_str (asciiLower (title p)) (ascii ''an'')) catalog = [banana]"
  "filter (\<lambda>p. includes_str (asciiLower (title p)) (ascii ''an '')) catalog = []"
  "filter (\<lambda>p. includes_str (asciiLower (title p)) (ascii ''a'')) catalog
     = [apple, grape, banana]"
  "filter (\<lambda>p. includes_str (asciiLower (title p)) (ascii ''A'')) catalog = []"
  "filter (\<lambda>p. includes_str (asciiLower (title p)) (ascii ''zzz'')) catalog = []"
  by (simp_all add: catalog_def toLowerCase_titles) (simp_all add: ascii_def)

theorem filterProducts_matches_witness:
  "toLowerCase asciiHost (ascii ''pie'') = ascii ''pie'' \<and>
   toLowerCase asciiHost (trim (toLowerCase asciiHost (ascii '' PIE  '')))
     = trim (toLowerCase asciiHost (ascii '' PIE  '')) \<and>
   lower_case_parts asciiHost \<and>
   filtered_list (filterProducts asciiHost (ascii ''pie'') loaded) = [apple] \<and>
   filter (\<lambda>p. contains_ignoring_case asciiHost (title p) (ascii ''pie'')) (all_list loaded)
     = [apple] \<and>
   contains_ignoring_case asciiHost (title apple) (ascii ''pie'') \<and>
   subseq [apple] catalog \<and>
   filtered_list (filterProducts asciiHost [] loaded) = catalog \<and>
   filtered_list (searchInput asciiHost (ascii '' PIE  '') loaded) = [apple]"
proof -
  let ?r = "filtered_list (filterProducts asciiHost (ascii ''pie'') loaded)"
  have t: "toLowerCase asciiHost (ascii ''pie'') = ascii ''pie''"
    by (simp add: toLowerCase_asciiHost lower_case_terms)
  have v: "trim (toLowerCase asciiHost (ascii '' PIE  '')) = ascii ''pie''"
    by (simp add: toLowerCase_asciiHost lower_case_terms)
  have v': "toLowerCase asciiHost (trim (toLowerCase asciiHost (ascii '' PIE  '')))
     = trim (toLowerCase asciiHost (ascii '' PIE  ''))"
    by (simp only: v t)
  have f: "filter (\<lambda>p. includes_str (toLowerCase asciiHost (title p)) (ascii ''pie'')) catalog
      = [apple]"
    by (simp add: toLowerCase_asciiHost catalog_matches)
  note m = filterProducts_matches [of asciiHost "ascii ''pie''" loaded "ascii '' PIE  ''"]
  from m have 1: "subseq ?r (all_list loaded)" by blast
  from m have "?r = filter (\<lambda>p. includes_str (toLowerCase asciiHost (title p)) (ascii ''pie''))
      (all_list loaded)" by blast
  then have 2: "?r = [apple]" by (simp only: catalog_loaded f)
  from m have 3: "filtered_list (filterProducts asciiHost [] loaded) = all_list loaded"
    by blast
  from m t have "?r = filter (\<lambda>p. contains_ignoring_case asciiHost (title p) (ascii ''pie''))
      (all_list loaded)" by blast
  with 2 have 4: "filter (\<lambda>p. contains_ignoring_case asciiHost (title p) (ascii ''pie''))
      (all_list loaded) = [apple]" by simp
  from m v' have "filtered_list (searchInput asciiHost (ascii '' PIE  '') loaded)
      = filter (\<lambda>p. contains_ignoring_case asciiHost (title p)
          (trim (toLowerCase asciiHost (ascii '' PIE  '')))) (all_list loaded)" by blast
  then have 5: "filtered_list (searchInput asciiHost (ascii '' PIE  '') loaded) = [apple]"
    by (simp only: v 4)
  from m lower_case_parts_asciiHost
  have "\<forall>p \<in> set ?r. contains_ignoring_case asciiHost (title p) (ascii ''pie'')" by blast
  then have 6: "contains_ignoring_case asciiHost (title apple) (ascii ''pie'')"
    by (simp only: 2) simp
  from 1 have 7: "subseq [apple] catalog" by (simp only: 2 catalog_loaded)
  from 3 have 8: "filtered_list (filterProducts asciiHost [] loaded) = catalog"
    by (simp only: catalog_loaded)
  show ?thesis by (intro conjI t v' lower_case_parts_asciiHost 2 4 6 7 8 5)
qed

text \<open>
  C1 as it is stated, for every term, fails. Given to \<open>filterProducts\<close>, the term
  \<open>A\<close> selects nothing, although three titles contain it case-insensitively. Typed
  into the search box, the term \<open>an\<close> followed by a space selects the banana, although
  no title contains it.
\<close>

theorem filterProducts_term_counterexample:
  "filtered_list (filterProducts asciiHost (ascii ''A'') loaded)
     \<noteq> filter (\<lambda>p. contains_ignoring_case asciiHost (title p) (ascii ''A''))
         (all_list loaded) \<and>
   filtered_list (searchInput asciiHost (ascii ''an '') loaded)
     \<noteq> filter (\<lambda>p. contains_ignoring_case asciiHost (title p) (ascii ''an ''))
         (all_list loaded)"
proof -
  have "filtered_list (filterProducts asciiHost (ascii ''A'') loaded) = []"
    by (simp add: filtered_list_filterProducts_uniform catalog_loaded toLowerCase_asciiHost
        catalog_matches)
  moreover have "filter (\<lambda>p. contains_ignoring_case asciiHost (title p) (ascii ''A''))
      (all_list loaded) = [apple, grape, banana]"
    by (simp add: catalog_loaded contains_ignoring_case_def toLowerCase_asciiHost
        lower_case_terms catalog_matches)
  moreover have "filtered_list (searchInput asciiHost (ascii ''an '') loaded) = [banana]"
    by (simp add: searchInput_def filtered_list_filterProducts_uniform catalog_loaded
        toLowerCase_asciiHost lower_case_terms catalog_matches)
  moreover have "filter (\<lambda>p. contains_ignoring_case asciiHost (title p) (ascii ''an ''))
      (all_list loaded) = []"
    by (simp add: catalog_loaded contains_ignoring_case_def toLowerCase_asciiHost
        lower_case_terms catalog_matches)
  ultimately show ?thesis by simp
qed

section \<open>The effect of each listener on the globals\<close>

lemma showLoading_frame:
  "heap (showLoading b s) = heap s"
  "allProducts (showLoading b s) = allProducts s"
  "filteredProducts (showLoading b s) = filteredProducts s"
  "currentPage (showLoading b s) = currentPage s"
  "itemsPerPage (showLoading b s) = itemsPerPage s"
  "sortConfig (showLoading b s) = sortConfig s"
  "tableBody (showLoading b s) = tableBody s"
  "loadingIndicator_active (showLoading b s) = b"
  by (simp_all add: showLoading_def)

lemma searchInput_frame:
  "allProducts (searchInput h v s) = allProducts s"
  "filteredProducts (searchInput h v s) = fresh s"
  "currentPage (searchInput h v s) = 1"
  "itemsPerPage (searchInput h v s) = itemsPerPage s"
  "all_list (searchInput h v s) = all_list s"
  by (simp_all add: searchInput_def filterProducts_frame)

lemma sortProducts_frame:
  "allProducts (sortProducts h s) = allProducts s"
  "filteredProducts (sortProducts h s) = filteredProducts s"
  "currentPage (sortProducts h s) = currentPage s"
  "itemsPerPage (sortProducts h s) = itemsPerPage s"
  "sortConfig (sortProducts h s) = sortConfig s"
  "filtered_list (sortProducts h s)
     = array_sort (compareProducts h (sortConfig s)) (filtered_list s)"
  "allProducts s \<noteq> filteredProducts s \<Longrightarrow> all_list (sortProducts h s) = all_list s"
  by (simp_all add: sortProducts_def filtered_list_def all_list_def)

lemma handleSort_frame:
  "allProducts (handleSort h col s) = allProducts s"
  "filteredProducts (handleSort h col s) = filteredProducts s"
  "currentPage (handleSort h col s) = 1"
  "itemsPerPage (handleSort h col s) = itemsPerPage s"
  "sortConfig (handleSort h col s) = next_config col (sortConfig s)"
  "filtered_list (handleSort h col s)
     = array_sort (compareProducts h (next_config col (sortConfig s))) (filtered_list s)"
  "allProducts s \<noteq> filteredProducts s \<Longrightarrow> all_list (handleSort h col s) = all_list s"
  by (simp_all add: handleSort_def Let_def renderTable_frame renderTable_lists
      sortProducts_def filtered_list_def all_list_def next_config_def)

lemma itemsPerPageChange_frame:
  "heap (itemsPerPageChange n s) = heap s"
  "allProducts (itemsPerPageChange n s) = allProducts s"
  "filteredProducts (itemsPerPageChange n s) = filteredProducts s"
  "currentPage (itemsPerPageChange n s) = 1"
  "itemsPerPage (itemsPerPageChange n s) = n"
  "sortConfig (itemsPerPageChange n s) = sortConfig s"
  by (simp_all add: itemsPerPageChange_def renderTable_frame)

lemma previousPage_frame:
  "heap (previousPage s) = heap s"
  "allProducts (previousPage s) = allProducts s"
  "filteredProducts (previousPage s) = filteredProducts s"
  "itemsPerPage (previousPage s) = itemsPerPage s"
  "sortConfig (previousPage s) = sortConfig s"
  "currentPage (previousPage s) = (if currentPage s > 1 then currentPage s - 1 else currentPage s)"
  by (simp_all add: previousPage_def renderTable_frame)

lemma nextPage_frame:
  "heap (nextPage s) = heap s"
  "allProducts (nextPage s) = allProducts s"
  "filteredProducts (nextPage s) = filteredProducts s"
  "itemsPerPage (nextPage s) = itemsPerPage s"
  "sortConfig (nextPage s) = sortConfig s"
  "currentPage (nextPage s)
     = (if less_number (currentPage s) (totalPages s) then currentPage s + 1 else currentPage s)"
  by (simp_all add: nextPage_def renderTable_frame)

lemma getAll_resume_failure:
  "getAll_try outcome s = Inl e \<Longrightarrow>
     getAll_resume outcome s = (showLoading False s)\<lparr>tableBody := MessageRow LoadError\<rparr>"
  by (simp add: getAll_resume_def)

lemma getAll_resume_success_frame:
  "allProducts (getAll_resume (HttpResponse True (Json ps)) s) = fresh s"
  "filteredProducts (getAll_resume (HttpResponse True (Json ps)) s)
     = Suc (max (fresh s) (filteredProducts s))"
  "currentPage (getAll_resume (HttpResponse True (Json ps)) s) = 1"
  "itemsPerPage (getAll_resume (HttpResponse True (Json ps)) s) = itemsPerPage s"
  "sortConfig (getAll_resume (HttpResponse True (Json ps)) s) = sortConfig s"
  "loadingIndicator_active (getAll_resume (HttpResponse True (Json ps)) s) = False"
  "all_list (getAll_resume (HttpResponse True (Json ps)) s) = ps"
  "filtered_list (getAll_resume (HttpResponse True (Json ps)) s) = ps"
  by (simp_all add: getAll_resume_def Let_def showLoading_frame renderTable_frame
      all_list_def filtered_list_def fresh_def)

lemma getAll_try_cases:
  "(\<exists>e. getAll_try outcome s = Inl e) \<or> (\<exists>ps. outcome = HttpResponse True (Json ps))"
  by (cases outcome) (auto split: body.splits)

section \<open>The pager\<close>

lemma totalPages_positive_size:
  "0 < itemsPerPage s \<Longrightarrow>
     totalPages s = Fin \<lceil>real (length (filtered_list s)) / real_of_int (itemsPerPage s)\<rceil>"
proof -
  have "\<lceil>real_of_int (int (length (filtered_list s))) / real_of_int (itemsPerPage s)\<rceil>
      = - (- int (length (filtered_list s)) div itemsPerPage s)"
    by (rule ceiling_divide_eq_div)
  moreover assume "0 < itemsPerPage s"
  ultimately show ?thesis by (simp add: totalPages_def ceil_quotient_def)
qed

lemma relative_index_range: "0 \<le> len \<Longrightarrow> 0 \<le> relative_index len i \<and> relative_index len i \<le> len"
  by (simp add: relative_index_def)

lemma slice_indices_in_range: "i \<in> set (slice_indices len a b) \<Longrightarrow> i < len"
  using relative_index_range [of "int len" b] by (auto simp: slice_indices_def)

lemma length_slice: "length (slice xs a b) = length (slice_indices (length xs) a b)"
  by (simp add: slice_def)

lemma page_length:
  assumes "0 \<le> d"
  shows "int (length (slice_indices len ((c - 1) * d) ((c - 1) * d + d))) \<le> d"
proof (cases "(c - 1) * d < 0")
  case False
  then show ?thesis using assms by (simp add: slice_indices_def relative_index_def)
next
  case True
  then have d: "0 < d" and c: "c \<le> 0"
    using assms by (auto simp: mult_less_0_iff)
  have "(c - 1) * d + d = c * d" by (simp add: algebra_simps)
  moreover have "c * d \<le> 0" using c d by (simp add: mult_le_0_iff)
  ultimately show ?thesis using True d
    by (auto simp: slice_indices_def relative_index_def)
qed


lemma page_ok_first: "currentPage s = 1 \<Longrightarrow> page_ok s"
  by (simp add: page_ok_def)

lemma filtered_list_previousPage: "filtered_list (previousPage s) = filtered_list s"
  by (simp add: filtered_list_def previousPage_frame)

lemma filtered_list_nextPage: "filtered_list (nextPage s) = filtered_list s"
  by (simp add: filtered_list_def nextPage_frame)

lemma page_ok_previousPage: "page_ok s \<Longrightarrow> page_ok (previousPage s)"
  by (auto simp: page_ok_def previousPage_frame filtered_list_previousPage)

lemma page_ok_nextPage: "page_ok s \<Longrightarrow> page_ok (nextPage s)"
  by (auto simp: page_ok_def nextPage_frame filtered_list_nextPage totalPages_positive_size)

lemma page_ok_showLoading: "page_ok s \<Longrightarrow> page_ok (showLoading b s)"
  by (simp add: page_ok_def showLoading_def filtered_list_def)

lemma page_ok_getAll_resume: "page_ok s \<Longrightarrow> page_ok (getAll_resume outcome s)"
  using getAll_try_cases [of outcome s]
proof (elim disjE exE)
  fix e assume "page_ok s" "getAll_try outcome s = Inl e"
  then show ?thesis
    by (simp add: getAll_resume_failure page_ok_def showLoading_def filtered_list_def)
next
  fix ps assume "outcome = HttpResponse True (Json ps)"
  then show ?thesis by (simp add: page_ok_first getAll_resume_success_frame)
qed

lemma page_ok_step: "page_ok s \<Longrightarrow> page_ok (step h e s)"
  by (cases e)
    (simp_all add: page_ok_first searchInput_frame itemsPerPageChange_frame handleSort_frame
      page_ok_previousPage page_ok_nextPage page_ok_showLoading page_ok_getAll_resume)

lemma page_ok_reachable: "reachable h s \<Longrightarrow> page_ok s"
  by (induction rule: reachable.induct) (simp_all add: initial_def page_ok_first page_ok_step)

section \<open>The small catalog, loaded\<close>

lemma initial_boot: "initial boot"
  by (simp add: initial_def boot_def)

lemma loaded_step: "loaded = step h (FetchSettled (HttpResponse True (Json catalog))) (step h FetchStarted boot)"
  by (simp add: loaded_def getAll_def)

lemma reachable_loaded: "reachable h loaded"
  unfolding loaded_step [of h]
  by (intro reachable_step reachable_initial initial_boot)

lemma loaded_fields:
  "allProducts loaded = 2" "filteredProducts loaded = 3" "currentPage loaded = 1"
  "itemsPerPage loaded = 10" "sortConfig loaded = \<lparr>column = None, direction = Asc\<rparr>"
  "filtered_list loaded = catalog" "loadingIndicator_active loaded = False"
  by (simp_all add: loaded_def getAll_def getAll_resume_success_frame showLoading_frame
      fresh_def boot_def)

lemma loaded_heap: "heap loaded 2 = catalog" "heap loaded 3 = catalog"
  using loaded_fields(6) catalog_loaded by (simp_all add: filtered_list_def all_list_def loaded_fields)

lemma length_catalog: "length catalog = 4"
  by (simp add: catalog_def)

section \<open>The visible slice and the range of the current page\<close>

text \<open>
  C2: for every filtered list, page size and current page, the visible slice is made of
  the elements at the indices \<open>pageIndices\<close>, all of them below the length of the
  filtered list; for a page size that is not negative it has at most as many elements as
  the page size; and for a positive page size the total number of pages is at least 1 when
  the filtered list is not empty.
\<close>

theorem pageData_in_bounds:
  "pageData s = map (\<lambda>i. filtered_list s ! i) (pageIndices s) \<and>
   (\<forall>i \<in> set (pageIndices s). i < length (filtered_list s)) \<and>
   (0 \<le> itemsPerPage s \<longrightarrow> int (length (pageData s)) \<le> itemsPerPage s) \<and>
   (0 < itemsPerPage s \<and> filtered_list s \<noteq> [] \<longrightarrow> (\<exists>t. totalPages s = Fin t \<and> 1 \<le> t))"
proof (intro conjI ballI impI)
  show "pageData s = map (\<lambda>i. filtered_list s ! i) (pageIndices s)"
    by (simp add: pageData_def pageIndices_def slice_def)
  show "i < length (filtered_list s)" if "i \<in> set (pageIndices s)" for i
    using that unfolding pageIndices_def by (rule slice_indices_in_range)
  show "int (length (pageData s)) \<le> itemsPerPage s" if "0 \<le> itemsPerPage s"
    using page_length [OF that, of "length (filtered_list s)" "currentPage s"]
    by (simp add: pageData_def length_slice startIndex_def endIndex_def)
  assume a: "0 < itemsPerPage s \<and> filtered_list s \<noteq> []"
  then have d: "0 < itemsPerPage s" and "0 < int (length (filtered_list s))" by simp_all
  then have "0 < real_of_int (int (length (filtered_list s))) / real_of_int (itemsPerPage s)"
    by simp
  then have "1 \<le> \<lceil>real (length (filtered_list s)) / real_of_int (itemsPerPage s)\<rceil>"
    by (simp add: one_le_ceiling)
  then show "\<exists>t. totalPages s = Fin t \<and> 1 \<le> t"
    using totalPages_positive_size [OF d] by simp
qed

lemma second_page_fields:
  "itemsPerPage (nextPage (itemsPerPageChange 3 loaded)) = 3"
  "currentPage (nextPage (itemsPerPageChange 3 loaded)) = 2"
  "filtered_list (nextPage (itemsPerPageChange 3 loaded)) = catalog"
  by (simp_all add: nextPage_frame itemsPerPageChange_frame filtered_list_def totalPages_def
      ceil_quotient_def loaded_fields loaded_heap length_catalog)

theorem pageData_in_bounds_witness:
  "0 < itemsPerPage (nextPage (itemsPerPageChange 3 loaded)) \<and>
   filtered_list (nextPage (itemsPerPageChange 3 loaded)) \<noteq> [] \<and>
   pageIndices (nextPage (itemsPerPageChange 3 loaded)) = [3] \<and>
   pageData (nextPage (itemsPerPageChange 3 loaded)) = [banana] \<and>
   int (length (pageData (nextPage (itemsPerPageChange 3 loaded)))) \<le> 3 \<and>
   totalPages (nextPage (itemsPerPageChange 3 loaded)) = Fin 2"
proof -
  let ?s = "nextPage (itemsPerPageChange 3 loaded)"
  have h: "0 < itemsPerPage ?s" by (simp add: second_page_fields)
  have ne: "filtered_list ?s \<noteq> []" by (simp add: second_page_fields catalog_def)
  have ix: "pageIndices ?s = [3]"
    by (simp add: pageIndices_def startIndex_def endIndex_def second_page_fields
        length_catalog slice_indices_def relative_index_def)
  have tp: "totalPages ?s = Fin 2"
    by (simp add: totalPages_def ceil_quotient_def second_page_fields length_catalog)
  from pageData_in_bounds [of ?s] h ne show ?thesis
    by (simp add: ix tp second_page_fields catalog_def)
qed

text \<open>
  C3: after any event in a run of the page, the current page lies between 1 and
  \<open>max 1 (ceil (filteredCount / pageSize))\<close>, for a positive page size; and a search, a
  sort, a change of the page size and a successful fetch set the current page to 1.
\<close>

theorem currentPage_in_range:
  "reachable h s \<Longrightarrow> 0 < itemsPerPage (step h e s) \<Longrightarrow>
     1 \<le> currentPage (step h e s) \<and>
     currentPage (step h e s)
       \<le> max 1 \<lceil>real (length (filtered_list (step h e s)))
                  / real_of_int (itemsPerPage (step h e s))\<rceil> \<and>
     currentPage (filterProducts h t s) = 1 \<and>
     currentPage (searchInput h v s) = 1 \<and>
     currentPage (handleSort h col s) = 1 \<and>
     currentPage (itemsPerPageChange n s) = 1 \<and>
     currentPage (getAll (HttpResponse True (Json ps)) s) = 1"
proof -
  assume r: "reachable h s" and d: "0 < itemsPerPage (step h e s)"
  have "reachable h (step h e s)" using r by (rule reachable_step)
  then have "page_ok (step h e s)" by (rule page_ok_reachable)
  with d show ?thesis
    by (simp add: page_ok_def filterProducts_frame searchInput_frame handleSort_frame
        itemsPerPageChange_frame getAll_def getAll_resume_success_frame)
qed

lemma paged_step: "paged = step h (PageSizeChosen 2) loaded"
  by (simp add: paged_def)

lemma reachable_paged: "reachable h paged"
  unfolding paged_step [of h] by (intro reachable_step reachable_loaded)

lemma paged_fields:
  "heap paged = heap loaded" "allProducts paged = 2" "filteredProducts paged = 3"
  "currentPage paged = 1" "itemsPerPage paged = 2" "filtered_list paged = catalog"
  "totalPages paged = Fin 2"
  by (simp_all add: paged_def itemsPerPageChange_frame loaded_fields filtered_list_def
      loaded_heap totalPages_def ceil_quotient_def length_catalog)

lemma second_of_paged:
  "currentPage (nextPage paged) = 2" "itemsPerPage (nextPage paged) = 2"
  "filtered_list (nextPage paged) = catalog" "totalPages (nextPage paged) = Fin 2"
  by (simp_all add: nextPage_frame paged_fields filtered_list_nextPage totalPages_def
      ceil_quotient_def length_catalog)

theorem currentPage_in_range_witness:
  "reachable asciiHost paged \<and>
   0 < itemsPerPage (step asciiHost NextClicked paged) \<and>
   currentPage (step asciiHost NextClicked paged) = 2 \<and>
   max 1 \<lceil>real (length (filtered_list (step asciiHost NextClicked paged)))
            / real_of_int (itemsPerPage (step asciiHost NextClicked paged))\<rceil> = 2 \<and>
   currentPage (filterProducts asciiHost (ascii ''an'') paged) = 1 \<and>
   currentPage (handleSort asciiHost (ascii ''price'') paged) = 1"
proof -
  have r: "reachable asciiHost paged" by (rule reachable_paged)
  have d: "0 < itemsPerPage (step asciiHost NextClicked paged)"
    by (simp add: second_of_paged)
  from currentPage_in_range [OF r d, of "(ascii ''an'')" "[]" "(ascii ''price'')" 5 "[]"] r show ?thesis
    by (simp add: second_of_paged length_catalog)
qed

section \<open>An empty result\<close>

lemma slice_Nil: "slice [] a b = []"
  by (simp add: slice_def slice_indices_def relative_index_def)

lemma renderTable_empty:
  assumes "filtered_list s = []"
  shows "pageData (renderTable s) = []"
    and "tableBody (renderTable s) = MessageRow NoProductsFound"
    and "pageInfo (renderTable s) = CaptionText NoData"
    and "prevBtn_disabled (renderTable s) = (currentPage s = 1)"
    and "nextBtn_disabled (renderTable s)"
proof -
  have p: "pageData s = []" using assms by (simp add: pageData_def slice_Nil)
  show "pageData (renderTable s) = []"
    using assms by (simp add: pageData_def renderTable_lists slice_Nil)
  show "tableBody (renderTable s) = MessageRow NoProductsFound"
    using p by (simp add: renderTable_def updatePaginationControls_frame)
  show "pageInfo (renderTable s) = CaptionText NoData"
    using p assms by (simp add: renderTable_def updatePaginationControls_def filtered_list_def)
  show "prevBtn_disabled (renderTable s) = (currentPage s = 1)"
    using p by (simp add: renderTable_def updatePaginationControls_def)
  show "nextBtn_disabled (renderTable s)"
    using p assms by (simp add: renderTable_def updatePaginationControls_def filtered_list_def)
qed

lemma totalPages_empty:
  "filtered_list s = [] \<Longrightarrow> itemsPerPage s \<noteq> 0 \<Longrightarrow> totalPages s = Fin 0"
  by (simp add: totalPages_def ceil_quotient_def)

lemma not_less_totalPages_empty:
  "filtered_list s = [] \<Longrightarrow> 1 \<le> i \<Longrightarrow> \<not> less_number i (totalPages s)"
  by (simp add: totalPages_def ceil_quotient_def)

lemma first_if_empty_step: "first_if_empty s \<Longrightarrow> first_if_empty (step h e s)"
proof (cases e)
  case (FetchSettled outcome)
  assume a: "first_if_empty s"
  from getAll_try_cases [of outcome s] show ?thesis
  proof (elim disjE exE)
    fix err assume "getAll_try outcome s = Inl err"
    with a FetchSettled show ?thesis
      by (simp add: getAll_resume_failure first_if_empty_def showLoading_def filtered_list_def)
  next
    fix ps assume "outcome = HttpResponse True (Json ps)"
    with FetchSettled show ?thesis
      by (simp add: first_if_empty_def getAll_resume_success_frame)
  qed
next
  case NextClicked
  assume "first_if_empty s"
  with NextClicked show ?thesis
    using not_less_totalPages_empty [of s 1]
    by (auto simp: first_if_empty_def nextPage_frame filtered_list_nextPage)
qed (auto simp: first_if_empty_def searchInput_frame itemsPerPageChange_frame
      handleSort_frame previousPage_frame filtered_list_previousPage showLoading_def
      filtered_list_def)

lemma first_if_empty_reachable: "reachable h s \<Longrightarrow> first_if_empty s"
proof (induction rule: reachable.induct)
  case (reachable_initial s)
  then show ?case by (simp add: initial_def first_if_empty_def)
next
  case (reachable_step s e)
  then show ?case by (simp add: first_if_empty_step)
qed

text \<open>
  C4, as the code has it. When a search leaves the filtered list empty, the visible slice is
  empty, the table shows the no-products row instead of rows, the page indicator shows the
  no-data caption and no page count, both navigation buttons are disabled, and the total
  number of pages computed is 0 (for a page size other than 0). The same is shown by any
  rendering in a run of the page whose filtered list is empty, and the page is then 1.
\<close>

theorem empty_result_view:
  "(filtered_list (filterProducts h t s) = [] \<longrightarrow>
      pageData (filterProducts h t s) = [] \<and>
      tableBody (filterProducts h t s) = MessageRow NoProductsFound \<and>
      pageInfo (filterProducts h t s) = CaptionText NoData \<and>
      prevBtn_disabled (filterProducts h t s) \<and>
      nextBtn_disabled (filterProducts h t s) \<and>
      (itemsPerPage s \<noteq> 0 \<longrightarrow> totalPages (filterProducts h t s) = Fin 0)) \<and>
   (reachable h s \<and> filtered_list s = [] \<longrightarrow>
      currentPage s = 1 \<and>
      pageData (renderTable s) = [] \<and>
      tableBody (renderTable s) = MessageRow NoProductsFound \<and>
      pageInfo (renderTable s) = CaptionText NoData \<and>
      prevBtn_disabled (renderTable s) \<and>
      nextBtn_disabled (renderTable s))"
proof (intro conjI impI)
  let ?u = "s\<lparr>heap := (heap s)
            (fresh s :=
               (if t = [] then all_list s
                else filter (\<lambda>p. includes_str (toLowerCase h (title p)) t) (all_list s))),
          filteredProducts := fresh s,
          currentPage := 1\<rparr>"
  have f: "filterProducts h t s = renderTable ?u" by (simp add: filterProducts_def)
  assume e: "filtered_list (filterProducts h t s) = []"
  then have u: "filtered_list ?u = []" by (simp add: f renderTable_lists)
  have c: "currentPage ?u = 1" by simp
  show "pageData (filterProducts h t s) = []" unfolding f using u by (rule renderTable_empty)
  show "tableBody (filterProducts h t s) = MessageRow NoProductsFound"
    unfolding f using u by (rule renderTable_empty)
  show "pageInfo (filterProducts h t s) = CaptionText NoData"
    unfolding f using u by (rule renderTable_empty)
  show "prevBtn_disabled (filterProducts h t s)"
    unfolding f using renderTable_empty(4) [OF u] c by simp
  show "nextBtn_disabled (filterProducts h t s)" unfolding f using u by (rule renderTable_empty)
  show "totalPages (filterProducts h t s) = Fin 0" if "itemsPerPage s \<noteq> 0"
    using e that by (simp add: totalPages_empty filterProducts_frame)
next
  assume a: "reachable h s \<and> filtered_list s = []"
  then have e: "filtered_list s = []" by simp
  from a have "first_if_empty s" using first_if_empty_reachable by blast
  with e show c: "currentPage s = 1" by (simp add: first_if_empty_def)
  show "pageData (renderTable s) = []" using e by (rule renderTable_empty)
  show "tableBody (renderTable s) = MessageRow NoProductsFound" using e by (rule renderTable_empty)
  show "pageInfo (renderTable s) = CaptionText NoData" using e by (rule renderTable_empty)
  show "prevBtn_disabled (renderTable s)" using renderTable_empty(4) [OF e] c by simp
  show "nextBtn_disabled (renderTable s)" using e by (rule renderTable_empty)
qed

lemma no_match_loaded: "filtered_list (filterProducts asciiHost (ascii ''zzz'') loaded) = []"
  by (simp add: filtered_list_filterProducts_uniform catalog_loaded toLowerCase_asciiHost
      catalog_matches)

theorem empty_result_view_witness:
  "filtered_list (filterProducts asciiHost (ascii ''zzz'') loaded) = [] \<and>
   reachable asciiHost (filterProducts asciiHost (ascii ''zzz'') loaded) \<and>
   itemsPerPage loaded \<noteq> 0 \<and>
   pageData (filterProducts asciiHost (ascii ''zzz'') loaded) = [] \<and>
   tableBody (filterProducts asciiHost (ascii ''zzz'') loaded) = MessageRow NoProductsFound \<and>
   pageInfo (filterProducts asciiHost (ascii ''zzz'') loaded) = CaptionText NoData \<and>
   prevBtn_disabled (filterProducts asciiHost (ascii ''zzz'') loaded) \<and>
   nextBtn_disabled (filterProducts asciiHost (ascii ''zzz'') loaded) \<and>
   totalPages (filterProducts asciiHost (ascii ''zzz'') loaded) = Fin 0 \<and>
   currentPage (filterProducts asciiHost (ascii ''zzz'') loaded) = 1 \<and>
   tableBody (renderTable (filterProducts asciiHost (ascii ''zzz'') loaded)) = MessageRow NoProductsFound"
proof -
  have z: "trim (toLowerCase asciiHost (ascii ''zzz'')) = ascii ''zzz''"
    by (simp add: toLowerCase_asciiHost lower_case_terms)
  have "reachable asciiHost (step asciiHost (Typed (ascii ''zzz'')) loaded)"
    by (intro reachable_step reachable_loaded)
  then have r: "reachable asciiHost (filterProducts asciiHost (ascii ''zzz'') loaded)"
    by (simp add: searchInput_def z)
  have n: "itemsPerPage loaded \<noteq> 0" by (simp add: loaded_fields)
  from empty_result_view [of asciiHost "ascii ''zzz''" loaded]
    empty_result_view
      [of asciiHost "ascii ''zzz''" "filterProducts asciiHost (ascii ''zzz'') loaded"]
    no_match_loaded r n
  show ?thesis by simp
qed

text \<open>
  C4 as it is stated fails in its first part: with no match, the total is 0, not 1, and the
  page indicator does not read page 1 of 1.
\<close>

theorem empty_result_totalPages_counterexample:
  "filtered_list (filterProducts asciiHost (ascii ''zzz'') loaded) = [] \<and>
   totalPages (filterProducts asciiHost (ascii ''zzz'') loaded) \<noteq> Fin 1 \<and>
   pageInfo (filterProducts asciiHost (ascii ''zzz'') loaded) \<noteq> PageOf 1 (Fin 1)"
proof -
  have "totalPages (filterProducts asciiHost (ascii ''zzz'') loaded) = Fin 0"
    using no_match_loaded by (simp add: totalPages_empty filterProducts_frame loaded_fields)
  moreover have "pageInfo (filterProducts asciiHost (ascii ''zzz'') loaded) = CaptionText NoData"
    using no_match_loaded
    by (simp add: filterProducts_def renderTable_empty renderTable_lists)
  ultimately show ?thesis using no_match_loaded by simp
qed

section \<open>Previous and next\<close>

text \<open>
  C5: \<open>previousPage\<close> leaves the whole state as it is on page 1, \<open>nextPage\<close> leaves it as
  it is when the current page is at or after the last page, and each of the two either
  changes nothing or moves the page by exactly one.
\<close>

theorem navigation_clamps:
  "(currentPage s = 1 \<longrightarrow> previousPage s = s) \<and>
   (greater_eq_number (currentPage s) (totalPages s) \<longrightarrow> nextPage s = s) \<and>
   (\<not> less_number (currentPage s) (totalPages s) \<longrightarrow> nextPage s = s) \<and>
   (previousPage s = s \<or> currentPage (previousPage s) = currentPage s - 1) \<and>
   (nextPage s = s \<or> currentPage (nextPage s) = currentPage s + 1)"
proof -
  have "\<not> less_number i n" if "greater_eq_number i n" for i n
    using that by (cases n) simp_all
  then show ?thesis
    by (auto simp: previousPage_def nextPage_def renderTable_frame)
qed

theorem navigation_clamps_witness:
  "currentPage paged = 1 \<and> previousPage paged = paged \<and>
   currentPage (nextPage paged) = currentPage paged + 1 \<and>
   greater_eq_number (currentPage (nextPage paged)) (totalPages (nextPage paged)) \<and>
   nextPage (nextPage paged) = nextPage paged \<and>
   currentPage (previousPage (nextPage paged)) = currentPage (nextPage paged) - 1"
proof -
  have a: "currentPage paged = 1" by (simp add: paged_fields)
  have b: "greater_eq_number (currentPage (nextPage paged)) (totalPages (nextPage paged))"
    by (simp add: second_of_paged)
  have c: "currentPage (previousPage (nextPage paged)) = 1"
    by (simp add: previousPage_frame second_of_paged)
  from navigation_clamps [of paged] navigation_clamps [of "nextPage paged"] a b c
  show ?thesis by (simp add: second_of_paged)
qed

section \<open>The comparator of sortProducts\<close>

lemma compareProducts_price:
  "compareProducts h \<lparr>column = Some (ascii ''price''), direction = Asc\<rparr> a b = price a - price b"
  "compareProducts h \<lparr>column = Some (ascii ''price''), direction = Desc\<rparr> a b = price b - price a"
  by (simp_all add: compareProducts_def ascii_def)

lemma compareProducts_Desc:
  "compareProducts h \<lparr>column = c, direction = Desc\<rparr> a b
     = compareProducts h \<lparr>column = c, direction = Asc\<rparr> b a"
  by (simp add: compareProducts_def)

lemma consistent_compareProducts_Asc:
  assumes "consistent (localeCompare h)"
  shows "consistent (compareProducts h \<lparr>column = c, direction = Asc\<rparr>)"
proof -
  have "consistent (\<lambda>a b. localeCompare h (toLowerCase h (title a)) (toLowerCase h (title b)))"
    using assms unfolding consistent_def by blast
  moreover have "consistent (\<lambda>a b :: product. price a - price b)"
    unfolding consistent_def by auto
  moreover have "consistent (\<lambda>(a :: product) (b :: product). 0 :: real)"
    unfolding consistent_def by simp
  ultimately show ?thesis
    by (cases "c = Some (ascii ''title'')"; cases "c = Some (ascii ''price'')")
      (simp_all add: compareProducts_def [abs_def])
qed

lemma consistent_price: "consistent (\<lambda>a b :: product. price a - price b)"
  unfolding consistent_def by auto

section \<open>Sorting by price\<close>

lemma sorted_prices_ascending:
  "sorted (map price (array_sort (\<lambda>a b. price a - price b) (xs :: product list)))"
  using sorted_array_sort [OF consistent_price, of xs]
  by (simp add: sorted_map)

lemma sorted_prices_descending:
  "sorted (rev (map price (array_sort (\<lambda>a b. price b - price a) (xs :: product list))))"
proof -
  have "sorted_wrt (\<lambda>a b. price b \<le> price a) (array_sort (\<lambda>a b. price b - price a) xs)"
    using sorted_array_sort [OF consistent_flip [OF consistent_price], of xs] by simp
  then have "sorted_wrt (\<lambda>x y. y \<le> x) (map price (array_sort (\<lambda>a b. price b - price a) xs))"
    by (simp add: sorted_wrt_map)
  then show ?thesis by (simp add: sorted_wrt_rev)
qed

lemma price_sequences_reversed:
  assumes "mset xs = mset (ys :: product list)"
  shows "map price (array_sort (\<lambda>a b. price a - price b) xs)
       = rev (map price (array_sort (\<lambda>a b. price b - price a) ys))"
proof -
  let ?a = "map price (array_sort (\<lambda>a b. price a - price b) xs)"
  let ?d = "rev (map price (array_sort (\<lambda>a b. price b - price a) ys))"
  have "mset ?a = mset (map price xs)"
    by (simp add: mset_array_sort)
  moreover have "mset ?d = mset (map price xs)"
    using assms by (simp add: mset_array_sort)
  ultimately have "sort (map price xs) = ?a" "sort (map price xs) = ?d"
    using sorted_prices_ascending [of xs] sorted_prices_descending [of ys]
    by (auto intro: properties_for_sort)
  then show ?thesis by simp
qed

lemma filtered_list_sortConfig_update: "filtered_list (s\<lparr>sortConfig := cfg\<rparr>) = filtered_list s"
  by (simp add: filtered_list_def)

text \<open>
  C6: sorting by price ascending and sorting by price descending give lists whose price
  sequences are the reverse of each other, both being rearrangements of the list sorted;
  so does choosing the price column twice in a row, which sorts ascending and then
  descending.
\<close>

theorem price_sort_reverses:
  "map price (filtered_list (sortProducts h
       (s\<lparr>sortConfig := \<lparr>column = Some (ascii ''price''), direction = Asc\<rparr>\<rparr>)))
     = rev (map price (filtered_list (sortProducts h
         (s\<lparr>sortConfig := \<lparr>column = Some (ascii ''price''), direction = Desc\<rparr>\<rparr>)))) \<and>
   mset (filtered_list (sortProducts h
       (s\<lparr>sortConfig := \<lparr>column = Some (ascii ''price''), direction = Asc\<rparr>\<rparr>)))
     = mset (filtered_list s) \<and>
   mset (filtered_list (sortProducts h
       (s\<lparr>sortConfig := \<lparr>column = Some (ascii ''price''), direction = Desc\<rparr>\<rparr>)))
     = mset (filtered_list s) \<and>
   sorted (map price (filtered_list (sortProducts h
       (s\<lparr>sortConfig := \<lparr>column = Some (ascii ''price''), direction = Asc\<rparr>\<rparr>)))) \<and>
   (column (sortConfig s) \<noteq> Some (ascii ''price'') \<longrightarrow>
      sortConfig (handleSort h (ascii ''price'') s) = \<lparr>column = Some (ascii ''price''), direction = Asc\<rparr> \<and>
      sortConfig (handleSort h (ascii ''price'') (handleSort h (ascii ''price'') s))
        = \<lparr>column = Some (ascii ''price''), direction = Desc\<rparr> \<and>
      map price (filtered_list (handleSort h (ascii ''price'') (handleSort h (ascii ''price'') s)))
        = rev (map price (filtered_list (handleSort h (ascii ''price'') s))))"
proof (intro conjI impI)
  let ?asc = "\<lambda>a b :: product. price a - price b"
  let ?desc = "\<lambda>a b :: product. price b - price a"
  have ca: "compareProducts h \<lparr>column = Some (ascii ''price''), direction = Asc\<rparr> = ?asc"
    by (intro ext) (simp add: compareProducts_price)
  have cd: "compareProducts h \<lparr>column = Some (ascii ''price''), direction = Desc\<rparr> = ?desc"
    by (intro ext) (simp add: compareProducts_price)
  show "map price (filtered_list (sortProducts h
       (s\<lparr>sortConfig := \<lparr>column = Some (ascii ''price''), direction = Asc\<rparr>\<rparr>)))
     = rev (map price (filtered_list (sortProducts h
         (s\<lparr>sortConfig := \<lparr>column = Some (ascii ''price''), direction = Desc\<rparr>\<rparr>))))"
    by (simp add: sortProducts_frame filtered_list_sortConfig_update ca cd
        price_sequences_reversed [of "filtered_list s" "filtered_list s"])
  show "mset (filtered_list (sortProducts h
       (s\<lparr>sortConfig := \<lparr>column = Some (ascii ''price''), direction = Asc\<rparr>\<rparr>)))
     = mset (filtered_list s)"
    by (simp add: sortProducts_frame filtered_list_sortConfig_update mset_array_sort)
  show "mset (filtered_list (sortProducts h
       (s\<lparr>sortConfig := \<lparr>column = Some (ascii ''price''), direction = Desc\<rparr>\<rparr>)))
     = mset (filtered_list s)"
    by (simp add: sortProducts_frame filtered_list_sortConfig_update mset_array_sort)
  show "sorted (map price (filtered_list (sortProducts h
       (s\<lparr>sortConfig := \<lparr>column = Some (ascii ''price''), direction = Asc\<rparr>\<rparr>))))"
    by (simp add: sortProducts_frame filtered_list_sortConfig_update ca sorted_prices_ascending)
  assume n: "column (sortConfig s) \<noteq> Some (ascii ''price'')"
  then have c1: "next_config (ascii ''price'') (sortConfig s) = \<lparr>column = Some (ascii ''price''), direction = Asc\<rparr>"
    by (simp add: next_config_def)
  then show "sortConfig (handleSort h (ascii ''price'') s) = \<lparr>column = Some (ascii ''price''), direction = Asc\<rparr>"
    by (simp add: handleSort_frame)
  have c2: "next_config (ascii ''price'') \<lparr>column = Some (ascii ''price''), direction = Asc\<rparr>
      = \<lparr>column = Some (ascii ''price''), direction = Desc\<rparr>"
    by (simp add: next_config_def)
  show "sortConfig (handleSort h (ascii ''price'') (handleSort h (ascii ''price'') s))
        = \<lparr>column = Some (ascii ''price''), direction = Desc\<rparr>"
    by (simp add: handleSort_frame c1 c2)
  have "array_sort ?asc (array_sort ?asc (filtered_list s)) = array_sort ?asc (filtered_list s)"
    by (rule array_sort_sorted) (rule sorted_array_sort [OF consistent_price])
  then have "map price (array_sort ?asc (filtered_list s))
      = rev (map price (array_sort ?desc (array_sort ?asc (filtered_list s))))"
    using price_sequences_reversed
      [of "array_sort ?asc (filtered_list s)" "array_sort ?asc (filtered_list s)"]
    by simp
  then have "rev (map price (array_sort ?asc (filtered_list s)))
      = map price (array_sort ?desc (array_sort ?asc (filtered_list s)))"
    by simp
  then show "map price (filtered_list (handleSort h (ascii ''price'') (handleSort h (ascii ''price'') s)))
        = rev (map price (filtered_list (handleSort h (ascii ''price'') s)))"
    by (simp add: handleSort_frame c1 c2 ca cd)
qed

lemma catalog_prices:
  "price apple = 30" "price banana = 10" "price cherry = 20" "price grape = 10"
  by (simp_all add: apple_def banana_def cherry_def grape_def)

lemma sort_loaded_by_price:
  "array_sort (\<lambda>a b. price a - price b) catalog = [grape, banana, cherry, apple]"
  "array_sort (\<lambda>a b. price b - price a) [grape, banana, cherry, apple]
     = [apple, cherry, grape, banana]"
  by (simp_all add: array_sort_def catalog_def catalog_prices)

theorem price_sort_reverses_witness:
  "column (sortConfig loaded) \<noteq> Some (ascii ''price'') \<and>
   filtered_list (handleSort asciiHost (ascii ''price'') loaded) = [grape, banana, cherry, apple] \<and>
   filtered_list (handleSort asciiHost (ascii ''price'') (handleSort asciiHost (ascii ''price'') loaded))
     = [apple, cherry, grape, banana] \<and>
   map price (filtered_list (handleSort asciiHost (ascii ''price'') (handleSort asciiHost (ascii ''price'') loaded)))
     = rev (map price (filtered_list (handleSort asciiHost (ascii ''price'') loaded)))"
proof -
  have n: "column (sortConfig loaded) \<noteq> Some (ascii ''price'')" by (simp add: loaded_fields)
  have c1: "next_config (ascii ''price'') \<lparr>column = None, direction = Asc\<rparr>
      = \<lparr>column = Some (ascii ''price''), direction = Asc\<rparr>"
    and c2: "next_config (ascii ''price'') \<lparr>column = Some (ascii ''price''), direction = Asc\<rparr>
      = \<lparr>column = Some (ascii ''price''), direction = Desc\<rparr>"
    by (simp_all add: next_config_def)
  have ca: "compareProducts asciiHost \<lparr>column = Some (ascii ''price''), direction = Asc\<rparr>
      = (\<lambda>a b. price a - price b)"
    and cd: "compareProducts asciiHost \<lparr>column = Some (ascii ''price''), direction = Desc\<rparr>
      = (\<lambda>a b. price b - price a)"
    by (intro ext, simp add: compareProducts_price)+
  have a: "filtered_list (handleSort asciiHost (ascii ''price'') loaded) = [grape, banana, cherry, apple]"
    by (simp add: handleSort_frame loaded_fields c1 ca sort_loaded_by_price)
  have d: "filtered_list (handleSort asciiHost (ascii ''price'') (handleSort asciiHost (ascii ''price'') loaded))
      = [apple, cherry, grape, banana]"
    by (simp add: handleSort_frame loaded_fields c1 c2 ca cd sort_loaded_by_price)
  have r: "map price (filtered_list (handleSort asciiHost (ascii ''price'') (handleSort asciiHost (ascii ''price'') loaded)))
     = rev (map price (filtered_list (handleSort asciiHost (ascii ''price'') loaded)))"
    using price_sort_reverses [of asciiHost loaded] n by blast
  show ?thesis by (intro conjI n a d r)
qed

section \<open>Rendering twice\<close>

lemma renderTable_cong:
  assumes "heap a = heap b" "allProducts a = allProducts b"
    "filteredProducts a = filteredProducts b" "currentPage a = currentPage b"
    "itemsPerPage a = itemsPerPage b" "sortConfig a = sortConfig b"
    "loadingIndicator_active a = loadingIndicator_active b"
  shows "renderTable a = renderTable b"
  using assms
  by (cases a; cases b)
    (simp add: renderTable_def updatePaginationControls_def pageData_def filtered_list_def
      totalPages_def startIndex_def endIndex_def)

lemma renderTable_idem: "renderTable (renderTable s) = renderTable s"
  by (rule renderTable_cong) (simp_all add: renderTable_frame)

section \<open>Toggling the sort\<close>

lemma consistent_compareProducts:
  assumes "consistent (localeCompare h)"
  shows "consistent (compareProducts h cfg)"
proof (cases "direction cfg")
  case Asc
  then have "cfg = \<lparr>column = column cfg, direction = Asc\<rparr>" by (cases cfg) simp
  then show ?thesis using consistent_compareProducts_Asc [OF assms, of "column cfg"] by simp
next
  case Desc
  then have cfg: "cfg = \<lparr>column = column cfg, direction = Desc\<rparr>" by (cases cfg) simp
  have "compareProducts h \<lparr>column = column cfg, direction = Desc\<rparr>
      = (\<lambda>a b. compareProducts h \<lparr>column = column cfg, direction = Asc\<rparr> b a)"
    by (intro ext) (rule compareProducts_Desc)
  then show ?thesis
    using consistent_flip [OF consistent_compareProducts_Asc [OF assms, of "column cfg"]] cfg
    by simp
qed

lemma next_config_twice:
  "column cfg \<noteq> Some col \<Longrightarrow>
     next_config col (next_config col (next_config col cfg)) = next_config col cfg"
  by (simp add: next_config_def)

lemma handleSort_as_render:
  "handleSort h col s =
     renderTable
       (s\<lparr>sortConfig := next_config col (sortConfig s),
          heap := (heap s)(filteredProducts s :=
              array_sort (compareProducts h (next_config col (sortConfig s))) (filtered_list s)),
          currentPage := 1\<rparr>)"
  by (simp add: handleSort_def Let_def sortProducts_def next_config_def filtered_list_def)

lemma heap_handleSort:
  "heap (handleSort h col s) = (heap s)(filteredProducts s :=
     array_sort (compareProducts h (next_config col (sortConfig s))) (filtered_list s))"
  by (simp add: handleSort_as_render renderTable_frame)

lemma loading_handleSort:
  "loadingIndicator_active (handleSort h col s) = loadingIndicator_active s"
  by (simp add: handleSort_as_render renderTable_frame)

lemma toggle_twice_list:
  assumes c: "consistent (localeCompare h)"
  shows "array_sort (compareProducts h \<lparr>column = Some col, direction = Asc\<rparr>)
           (array_sort (compareProducts h \<lparr>column = Some col, direction = Desc\<rparr>) xs)
         = array_sort (compareProducts h \<lparr>column = Some col, direction = Asc\<rparr>) xs"
proof -
  have "compareProducts h \<lparr>column = Some col, direction = Desc\<rparr>
      = (\<lambda>a b. compareProducts h \<lparr>column = Some col, direction = Asc\<rparr> b a)"
    by (intro ext) (rule compareProducts_Desc)
  then show ?thesis
    using array_sort_flip [OF consistent_compareProducts [OF c], of _ xs] by simp
qed

lemma handleSort_thrice:
  assumes c: "consistent (localeCompare h)" and n: "column (sortConfig s) \<noteq> Some col"
  shows "handleSort h col (handleSort h col (handleSort h col s)) = handleSort h col s"
proof -
  let ?A = "\<lparr>column = Some col, direction = Asc\<rparr>"
  let ?D = "\<lparr>column = Some col, direction = Desc\<rparr>"
  let ?s1 = "handleSort h col s"
  let ?s2 = "handleSort h col ?s1"
  let ?L1 = "array_sort (compareProducts h ?A) (filtered_list s)"
  have c1: "next_config col (sortConfig s) = ?A" using n by (simp add: next_config_def)
  have c2: "next_config col ?A = ?D" and c3: "next_config col ?D = ?A"
    by (simp_all add: next_config_def)
  have cfg1: "sortConfig ?s1 = ?A" by (simp add: handleSort_frame c1)
  have cfg2: "sortConfig ?s2 = ?D" by (simp add: handleSort_frame c1 c2)
  have l1: "filtered_list ?s1 = ?L1" by (simp add: handleSort_frame c1)
  have l2: "filtered_list ?s2 = array_sort (compareProducts h ?D) ?L1"
    by (simp add: handleSort_frame c1 c2)
  have sorted1: "array_sort (compareProducts h ?A) ?L1 = ?L1"
    by (rule array_sort_sorted) (rule sorted_array_sort [OF consistent_compareProducts [OF c]])
  have returned: "array_sort (compareProducts h ?A) (array_sort (compareProducts h ?D) ?L1) = ?L1"
    using toggle_twice_list [OF c, of col ?L1] sorted1 by simp
  have h2: "heap ?s2 = (heap ?s1)(filteredProducts s := array_sort (compareProducts h ?D) ?L1)"
    using heap_handleSort [of h col ?s1] by (simp add: handleSort_frame c1 c2)
  have h1: "heap ?s1 (filteredProducts s) = ?L1"
    using l1 by (simp add: filtered_list_def handleSort_frame)
  have "handleSort h col ?s2 =
      renderTable (?s2\<lparr>sortConfig := next_config col (sortConfig ?s2),
          heap := (heap ?s2)(filteredProducts ?s2 :=
              array_sort (compareProducts h (next_config col (sortConfig ?s2))) (filtered_list ?s2)),
          currentPage := 1\<rparr>)"
    by (rule handleSort_as_render)
  also have "\<dots> = renderTable ?s1"
  proof (rule renderTable_cong)
    show "heap (?s2\<lparr>sortConfig := next_config col (sortConfig ?s2),
          heap := (heap ?s2)(filteredProducts ?s2 :=
              array_sort (compareProducts h (next_config col (sortConfig ?s2))) (filtered_list ?s2)),
          currentPage := 1\<rparr>) = heap ?s1"
    proof -
      have fp2: "filteredProducts ?s2 = filteredProducts s" by (simp add: handleSort_frame)
      have "heap (?s2\<lparr>sortConfig := next_config col (sortConfig ?s2),
          heap := (heap ?s2)(filteredProducts ?s2 :=
              array_sort (compareProducts h (next_config col (sortConfig ?s2))) (filtered_list ?s2)),
          currentPage := 1\<rparr>)
        = (heap ?s2)(filteredProducts ?s2 :=
              array_sort (compareProducts h (next_config col (sortConfig ?s2))) (filtered_list ?s2))"
        by simp
      also have "\<dots> = (heap ?s2)(filteredProducts s :=
              array_sort (compareProducts h ?A) (array_sort (compareProducts h ?D) ?L1))"
        by (simp only: fp2 cfg2 c3 l2)
      also have "\<dots> = (heap ?s2)(filteredProducts s := ?L1)"
        by (simp only: returned)
      also have "\<dots> = (heap ?s1)(filteredProducts s := ?L1)"
        by (simp only: h2 fun_upd_upd)
      also have "\<dots> = heap ?s1"
        by (simp only: h1 [symmetric] fun_upd_triv)
      finally show ?thesis .
    qed
  qed (simp_all add: handleSort_frame cfg2 c3 c2 c1 loading_handleSort)
  also have "\<dots> = ?s1"
    by (simp add: handleSort_as_render [of h col s] renderTable_idem)
  finally show ?thesis .
qed

text \<open>
  C7: for a consistent collation, choosing the column that is already active flips the
  direction, choosing another column sets the direction to ascending, and after a column
  has been chosen (an ascending sort), choosing it twice more gives back the very state of
  that ascending sort; from any state sorted ascending by a column, choosing the column
  twice gives the ascending sort of the list.
\<close>

theorem handleSort_toggle:
  "consistent (localeCompare h) \<Longrightarrow>
     (column (sortConfig s) = Some col \<longrightarrow>
        sortConfig (handleSort h col s)
          = \<lparr>column = Some col,
             direction = (if direction (sortConfig s) = Asc then Desc else Asc)\<rparr>) \<and>
     (column (sortConfig s) \<noteq> Some col \<longrightarrow>
        sortConfig (handleSort h col s) = \<lparr>column = Some col, direction = Asc\<rparr>) \<and>
     (column (sortConfig s) \<noteq> Some col \<longrightarrow>
        handleSort h col (handleSort h col (handleSort h col s)) = handleSort h col s) \<and>
     (sortConfig s = \<lparr>column = Some col, direction = Asc\<rparr> \<longrightarrow>
        sortConfig (handleSort h col (handleSort h col s)) = sortConfig s \<and>
        filtered_list (handleSort h col (handleSort h col s))
          = array_sort (compareProducts h (sortConfig s)) (filtered_list s))"
proof (intro conjI impI)
  assume c: "consistent (localeCompare h)"
  show "sortConfig (handleSort h col s)
      = \<lparr>column = Some col, direction = (if direction (sortConfig s) = Asc then Desc else Asc)\<rparr>"
    if "column (sortConfig s) = Some col"
    using that by (cases "sortConfig s") (simp add: handleSort_frame next_config_def)
  show "sortConfig (handleSort h col s) = \<lparr>column = Some col, direction = Asc\<rparr>"
    if "column (sortConfig s) \<noteq> Some col"
    using that by (simp add: handleSort_frame next_config_def)
  show "handleSort h col (handleSort h col (handleSort h col s)) = handleSort h col s"
    if "column (sortConfig s) \<noteq> Some col"
    using c that by (rule handleSort_thrice)
  assume a: "sortConfig s = \<lparr>column = Some col, direction = Asc\<rparr>"
  have c2: "next_config col \<lparr>column = Some col, direction = Asc\<rparr>
      = \<lparr>column = Some col, direction = Desc\<rparr>"
    and c3: "next_config col \<lparr>column = Some col, direction = Desc\<rparr>
      = \<lparr>column = Some col, direction = Asc\<rparr>"
    by (simp_all add: next_config_def)
  show "sortConfig (handleSort h col (handleSort h col s)) = sortConfig s"
    by (simp add: handleSort_frame a c2 c3)
  show "filtered_list (handleSort h col (handleSort h col s))
      = array_sort (compareProducts h (sortConfig s)) (filtered_list s)"
    by (simp add: handleSort_frame a c2 c3 toggle_twice_list [OF c])
qed

lemma consistent_codeCompare: "consistent codeCompare"
  unfolding consistent_def codeCompare_def by (auto split: if_splits)

lemma consistent_asciiHost: "consistent (localeCompare asciiHost)"
  by (simp add: localeCompare_asciiHost consistent_codeCompare)

lemma sort_loaded_by_title:
  "array_sort (compareProducts asciiHost \<lparr>column = Some (ascii ''title''), direction = Asc\<rparr>) catalog
     = [apple, banana, cherry, grape]"
  "array_sort (compareProducts asciiHost \<lparr>column = Some (ascii ''title''), direction = Desc\<rparr>)
     [apple, banana, cherry, grape] = [grape, cherry, banana, apple]"
  by (simp_all add: array_sort_def catalog_def compareProducts_def toLowerCase_asciiHost
      localeCompare_asciiHost toLowerCase_titles codeCompare_def ascii_def)

theorem handleSort_toggle_witness:
  "consistent (localeCompare asciiHost) \<and>
   column (sortConfig loaded) \<noteq> Some (ascii ''title'') \<and>
   sortConfig (handleSort asciiHost (ascii ''title'') loaded)
     = \<lparr>column = Some (ascii ''title''), direction = Asc\<rparr> \<and>
   filtered_list (handleSort asciiHost (ascii ''title'') loaded) = [apple, banana, cherry, grape] \<and>
   sortConfig (handleSort asciiHost (ascii ''title'') (handleSort asciiHost (ascii ''title'') loaded))
     = \<lparr>column = Some (ascii ''title''), direction = Desc\<rparr> \<and>
   filtered_list (handleSort asciiHost (ascii ''title'') (handleSort asciiHost (ascii ''title'') loaded))
     = [grape, cherry, banana, apple] \<and>
   handleSort asciiHost (ascii ''title'')
     (handleSort asciiHost (ascii ''title'') (handleSort asciiHost (ascii ''title'') loaded))
     = handleSort asciiHost (ascii ''title'') loaded"
proof -
  let ?s1 = "handleSort asciiHost (ascii ''title'') loaded"
  have n: "column (sortConfig loaded) \<noteq> Some (ascii ''title'')" by (simp add: loaded_fields)
  have c1: "next_config (ascii ''title'') \<lparr>column = None, direction = Asc\<rparr>
      = \<lparr>column = Some (ascii ''title''), direction = Asc\<rparr>"
    and c2: "next_config (ascii ''title'') \<lparr>column = Some (ascii ''title''), direction = Asc\<rparr>
      = \<lparr>column = Some (ascii ''title''), direction = Desc\<rparr>"
    by (simp_all add: next_config_def)
  have a: "filtered_list ?s1 = [apple, banana, cherry, grape]"
    by (simp add: handleSort_frame loaded_fields c1 sort_loaded_by_title)
  have d: "filtered_list (handleSort asciiHost (ascii ''title'') ?s1) = [grape, cherry, banana, apple]"
    by (simp add: handleSort_frame loaded_fields c1 c2 sort_loaded_by_title)
  have t1: "sortConfig ?s1 = \<lparr>column = Some (ascii ''title''), direction = Asc\<rparr>"
    and t3: "handleSort asciiHost (ascii ''title'') (handleSort asciiHost (ascii ''title'') ?s1) = ?s1"
    using handleSort_toggle [OF consistent_asciiHost, of loaded "(ascii ''title'')"] n by blast+
  have t2: "sortConfig (handleSort asciiHost (ascii ''title'') ?s1)
      = \<lparr>column = Some (ascii ''title''), direction = Desc\<rparr>"
    using handleSort_toggle [OF consistent_asciiHost, of ?s1 "(ascii ''title'')"] t1 by simp
  show ?thesis by (intro conjI consistent_asciiHost n t1 a t2 d t3)
qed

section \<open>A failed fetch\<close>

lemma getAll_try_failures:
  "getAll_try TransportFailure s = Inl FetchRejected"
  "getAll_try (HttpResponse False b) s = Inl FailedToFetchProducts"
  "getAll_try (HttpResponse True Malformed) s = Inl JsonRejected"
  by simp_all

lemma getAll_failure_state:
  "outcome \<in> {TransportFailure, HttpResponse False b, HttpResponse True Malformed} \<Longrightarrow>
     getAll outcome s = s\<lparr>loadingIndicator_active := False, tableBody := MessageRow LoadError\<rparr>"
  by (auto simp: getAll_def getAll_resume_def showLoading_def)

text \<open>
  C8: when the request is rejected, the response is not ok, or its body does not parse, the
  table shows the load error, the loading indicator is cleared and \<open>allProducts\<close> is left
  as it was, empty when the page has just started; the loading indicator is cleared on
  every path, the successful one included.
\<close>

theorem getAll_failure_and_loading:
  "(outcome \<in> {TransportFailure, HttpResponse False b, HttpResponse True Malformed} \<longrightarrow>
      tableBody (getAll outcome s) = MessageRow LoadError \<and>
      \<not> loadingIndicator_active (getAll outcome s) \<and>
      allProducts (getAll outcome s) = allProducts s \<and>
      heap (getAll outcome s) = heap s \<and>
      all_list (getAll outcome s) = all_list s \<and>
      (initial s \<longrightarrow> all_list (getAll outcome s) = [])) \<and>
   \<not> loadingIndicator_active (getAll outcome s) \<and>
   \<not> loadingIndicator_active (getAll (HttpResponse True (Json ps)) s) \<and>
   all_list (getAll (HttpResponse True (Json ps)) s) = ps"
proof (intro conjI impI)
  assume f: "outcome \<in> {TransportFailure, HttpResponse False b, HttpResponse True Malformed}"
  note st = getAll_failure_state [OF f, of s]
  show "tableBody (getAll outcome s) = MessageRow LoadError" by (simp add: st)
  show "\<not> loadingIndicator_active (getAll outcome s)" by (simp add: st)
  show "allProducts (getAll outcome s) = allProducts s" by (simp add: st)
  show "heap (getAll outcome s) = heap s" by (simp add: st)
  show "all_list (getAll outcome s) = all_list s" by (simp add: st all_list_def)
  show "all_list (getAll outcome s) = []" if "initial s"
    using that by (simp add: st all_list_def initial_def)
next
  show "\<not> loadingIndicator_active (getAll outcome s)"
    using getAll_try_cases [of outcome "showLoading True s"]
    by (auto simp: getAll_def getAll_resume_failure getAll_resume_success_frame showLoading_def)
  show "\<not> loadingIndicator_active (getAll (HttpResponse True (Json ps)) s)"
    by (simp add: getAll_def getAll_resume_success_frame)
  show "all_list (getAll (HttpResponse True (Json ps)) s) = ps"
    by (simp add: getAll_def getAll_resume_success_frame)
qed

theorem getAll_failure_and_loading_witness:
  "HttpResponse False (Json catalog)
     \<in> {TransportFailure, HttpResponse False (Json catalog), HttpResponse True Malformed} \<and>
   initial boot \<and>
   tableBody (getAll (HttpResponse False (Json catalog)) boot) = MessageRow LoadError \<and>
   \<not> loadingIndicator_active (getAll (HttpResponse False (Json catalog)) boot) \<and>
   all_list (getAll (HttpResponse False (Json catalog)) boot) = [] \<and>
   \<not> loadingIndicator_active loaded"
proof -
  have m: "HttpResponse False (Json catalog)
     \<in> {TransportFailure, HttpResponse False (Json catalog), HttpResponse True Malformed}"
    by simp
  from getAll_failure_and_loading
    [of "HttpResponse False (Json catalog)" "Json catalog" boot catalog] m initial_boot
  show ?thesis by (simp add: loaded_def all_list_def boot_def)
qed

section \<open>The full list is left alone\<close>

lemma separate_step: "separate s \<Longrightarrow> separate (step h e s)"
proof (cases e)
  case (FetchSettled outcome)
  assume a: "separate s"
  from getAll_try_cases [of outcome s] show ?thesis
  proof (elim disjE exE)
    fix err assume "getAll_try outcome s = Inl err"
    with a FetchSettled show ?thesis
      by (simp add: getAll_resume_failure separate_def showLoading_def)
  next
    fix ps assume "outcome = HttpResponse True (Json ps)"
    with FetchSettled show ?thesis
      by (simp add: separate_def getAll_resume_success_frame)
  qed
qed (simp_all add: separate_def searchInput_frame fresh_neq itemsPerPageChange_frame
      previousPage_frame nextPage_frame handleSort_frame showLoading_def)

lemma separate_reachable: "reachable h s \<Longrightarrow> separate s"
proof (induction rule: reachable.induct)
  case (reachable_initial s)
  then show ?case by (simp add: initial_def separate_def)
next
  case (reachable_step s e)
  then show ?case by (simp add: separate_step)
qed

lemma all_list_paging:
  "all_list (itemsPerPageChange n s) = all_list s"
  "all_list (previousPage s) = all_list s"
  "all_list (nextPage s) = all_list s"
  by (simp_all add: all_list_def itemsPerPageChange_frame previousPage_frame nextPage_frame)

text \<open>
  C10: in every run of the page \<open>filteredProducts\<close> and \<open>allProducts\<close> are different
  arrays, before and after every event; filtering puts its result into a new array;
  sorting changes no array but the one \<open>filteredProducts\<close> refers to; and no filter, sort
  or paging operation changes \<open>allProducts\<close> or the contents of its array.
\<close>

theorem allProducts_untouched:
  "reachable h s \<Longrightarrow>
     allProducts s \<noteq> filteredProducts s \<and>
     allProducts (step h e s) \<noteq> filteredProducts (step h e s) \<and>
     allProducts (filterProducts h t s) = allProducts s \<and>
     all_list (filterProducts h t s) = all_list s \<and>
     filteredProducts (filterProducts h t s) \<notin> {allProducts s, filteredProducts s} \<and>
     allProducts (searchInput h v s) = allProducts s \<and>
     all_list (searchInput h v s) = all_list s \<and>
     allProducts (sortProducts h s) = allProducts s \<and>
     all_list (sortProducts h s) = all_list s \<and>
     (\<forall>a. a \<noteq> filteredProducts s \<longrightarrow> heap (sortProducts h s) a = heap s a) \<and>
     allProducts (handleSort h col s) = allProducts s \<and>
     all_list (handleSort h col s) = all_list s \<and>
     allProducts (itemsPerPageChange n s) = allProducts s \<and>
     all_list (itemsPerPageChange n s) = all_list s \<and>
     allProducts (previousPage s) = allProducts s \<and>
     all_list (previousPage s) = all_list s \<and>
     allProducts (nextPage s) = allProducts s \<and>
     all_list (nextPage s) = all_list s"
proof -
  assume r: "reachable h s"
  then have d: "allProducts s \<noteq> filteredProducts s"
    using separate_reachable [of h s] by (simp add: separate_def)
  have "reachable h (step h e s)" using r by (rule reachable_step)
  then have d': "allProducts (step h e s) \<noteq> filteredProducts (step h e s)"
    using separate_reachable [of h "step h e s"] by (simp add: separate_def)
  have "heap (sortProducts h s) a = heap s a" if "a \<noteq> filteredProducts s" for a
    using that by (simp add: sortProducts_def)
  with d d' show ?thesis
    by (simp add: filterProducts_frame searchInput_frame sortProducts_frame handleSort_frame
        itemsPerPageChange_frame previousPage_frame nextPage_frame all_list_paging fresh_neq)
qed

theorem allProducts_untouched_witness:
  "reachable asciiHost loaded \<and>
   allProducts loaded \<noteq> filteredProducts loaded \<and>
   filtered_list (handleSort asciiHost (ascii ''price'') loaded) = [grape, banana, cherry, apple] \<and>
   all_list (handleSort asciiHost (ascii ''price'') loaded) = catalog \<and>
   all_list (filterProducts asciiHost (ascii ''an'') loaded) = catalog \<and>
   all_list (nextPage loaded) = catalog"
proof -
  have r: "reachable asciiHost loaded" by (rule reachable_loaded)
  have c1: "next_config (ascii ''price'') \<lparr>column = None, direction = Asc\<rparr>
      = \<lparr>column = Some (ascii ''price''), direction = Asc\<rparr>"
    by (simp add: next_config_def)
  have ca: "compareProducts asciiHost \<lparr>column = Some (ascii ''price''), direction = Asc\<rparr>
      = (\<lambda>a b. price a - price b)"
    by (intro ext) (simp add: compareProducts_price)
  have a: "filtered_list (handleSort asciiHost (ascii ''price'') loaded) = [grape, banana, cherry, apple]"
    by (simp add: handleSort_frame loaded_fields c1 ca sort_loaded_by_price)
  from allProducts_untouched [OF r, of "FetchStarted" "(ascii ''an'')" "[]" "(ascii ''price'')" 5] r a
  show ?thesis by (simp add: catalog_loaded loaded_fields)
qed

section \<open>createTableRow\<close>

lemma imageUrl_first:
  assumes "images p = Some ((pre @ u @ post) # rest)"
    and "\<forall>c\<in>set pre. is_space c" and "\<forall>c\<in>set post. is_space c"
    and "u = [] \<or> (\<not> is_space (hd u) \<and> \<not> is_space (last u))"
  shows "imageUrl p = (if \<exists>r. u = ascii ''http'' @ r then u else placeholder)"
proof -
  have t: "trim (pre @ u @ post) = u" using assms(2-4) by (rule trim_surrounded)
  have i: "imageUrl p = (if u = [] \<or> \<not> startsWith u (ascii ''http'') then placeholder else u)"
    by (simp add: imageUrl_def assms(1) t)
  show ?thesis
  proof (cases "startsWith u (ascii ''http'')")
    case True
    then obtain r where "u = ascii ''http'' @ r" unfolding startsWith_append ..
    then have "u \<noteq> []" by (simp add: ascii_def)
    with True i have "imageUrl p = u" by simp
    moreover have "\<exists>r. u = ascii ''http'' @ r" using True unfolding startsWith_append .
    ultimately show ?thesis by simp
  next
    case False
    with i have "imageUrl p = placeholder" by simp
    moreover have "\<nexists>r. u = ascii ''http'' @ r" using False unfolding startsWith_append .
    ultimately show ?thesis by simp
  qed
qed

lemma tableBody_renderTable:
  "pageData s \<noteq> [] \<Longrightarrow>
     tableBody (renderTable s)
       = Rows (map (\<lambda>(p, index). createTableRow p (startIndex s + int index + 1))
                (zip (pageData s) [0 ..< length (pageData s)]))"
  by (simp add: renderTable_def updatePaginationControls_frame)

lemma map_rows:
  "map f (map (\<lambda>(p, index). createTableRow p (g index)) (zip xs [0 ..< length xs]))
     = map (\<lambda>p. f (createTableRow p 0)) xs"
proof -
  have "f (createTableRow p n) = f (createTableRow p 0)" for p n
    by (simp add: createTableRow_def)
  then have "map f (map (\<lambda>(p, index). createTableRow p (g index)) (zip xs [0 ..< length xs]))
      = map ((\<lambda>p. f (createTableRow p 0)) \<circ> fst) (zip xs [0 ..< length xs])"
    by (simp add: case_prod_unfold comp_def)
  also have "\<dots> = map (\<lambda>p. f (createTableRow p 0)) (map fst (zip xs [0 ..< length xs]))"
    by (simp only: map_map)
  also have "map fst (zip xs [0 ..< length xs]) = xs" by simp
  finally show ?thesis .
qed

text \<open>
  C9: a product without images, or with an empty array, gets the placeholder. When the
  first entry is white space, a core \<open>u\<close> that neither starts nor ends with white space,
  and white space (every string is of this form, with \<open>u\<close> its trimmed text), the image of
  the row is \<open>u\<close> when \<open>u\<close> starts with \<open>http\<close> and the placeholder when it does not. And
  the table gets one row for every visible product, whatever its images are.
\<close>

theorem createTableRow_image:
  "(images p = None \<or> images p = Some [] \<longrightarrow> row_image (createTableRow p n) = placeholder) \<and>
   (images p = Some ((pre @ u @ post) # rest) \<and>
    (\<forall>c\<in>set pre. is_space c) \<and> (\<forall>c\<in>set post. is_space c) \<and>
    (u = [] \<or> (\<not> is_space (hd u) \<and> \<not> is_space (last u))) \<longrightarrow>
      ((\<exists>r. u = ascii ''http'' @ r) \<longrightarrow> row_image (createTableRow p n) = u) \<and>
      ((\<nexists>r. u = ascii ''http'' @ r) \<longrightarrow> row_image (createTableRow p n) = placeholder)) \<and>
   (\<forall>firstImage. \<exists>pre post.
      firstImage = pre @ trim firstImage @ post \<and>
      (\<forall>c\<in>set pre. is_space c) \<and> (\<forall>c\<in>set post. is_space c) \<and>
      (trim firstImage = [] \<or>
       (\<not> is_space (hd (trim firstImage)) \<and> \<not> is_space (last (trim firstImage))))) \<and>
   (pageData s \<noteq> [] \<longrightarrow>
      (\<exists>rows. tableBody (renderTable s) = Rows rows \<and>
         map row_id rows = map ident (pageData s) \<and>
         map row_title rows = map title (pageData s)))"
proof (intro conjI impI allI)
  show "row_image (createTableRow p n) = placeholder"
    if "images p = None \<or> images p = Some []"
    using that by (auto simp: createTableRow_def imageUrl_def)
  assume a: "images p = Some ((pre @ u @ post) # rest) \<and>
    (\<forall>c\<in>set pre. is_space c) \<and> (\<forall>c\<in>set post. is_space c) \<and>
    (u = [] \<or> (\<not> is_space (hd u) \<and> \<not> is_space (last u)))"
  then have a1: "images p = Some ((pre @ u @ post) # rest)"
    and a2: "\<forall>c\<in>set pre. is_space c" and a3: "\<forall>c\<in>set post. is_space c"
    and a4: "u = [] \<or> (\<not> is_space (hd u) \<and> \<not> is_space (last u))"
    by blast+
  have i: "imageUrl p = (if \<exists>r. u = ascii ''http'' @ r then u else placeholder)"
    using a1 a2 a3 a4 by (rule imageUrl_first)
  show "row_image (createTableRow p n) = u" if "\<exists>r. u = ascii ''http'' @ r"
    using that i by (simp add: createTableRow_def)
  show "row_image (createTableRow p n) = placeholder" if "\<nexists>r. u = ascii ''http'' @ r"
    using that i by (simp add: createTableRow_def)
next
  fix firstImage :: str
  from trim_decomposition [of firstImage] trim_core [of firstImage]
  show "\<exists>pre post.
      firstImage = pre @ trim firstImage @ post \<and>
      (\<forall>c\<in>set pre. is_space c) \<and> (\<forall>c\<in>set post. is_space c) \<and>
      (trim firstImage = [] \<or>
       (\<not> is_space (hd (trim firstImage)) \<and> \<not> is_space (last (trim firstImage))))"
    by blast
next
  assume ne: "pageData s \<noteq> []"
  let ?rows = "map (\<lambda>(p, index). createTableRow p (startIndex s + int index + 1))
                (zip (pageData s) [0 ..< length (pageData s)])"
  have "tableBody (renderTable s) = Rows ?rows" using ne by (rule tableBody_renderTable)
  moreover have "map row_id ?rows = map ident (pageData s)"
    by (simp only: map_rows) (simp add: createTableRow_def)
  moreover have "map row_title ?rows = map title (pageData s)"
    by (simp only: map_rows) (simp add: createTableRow_def)
  ultimately show "\<exists>rows. tableBody (renderTable s) = Rows rows \<and>
         map row_id rows = map ident (pageData s) \<and>
         map row_title rows = map title (pageData s)"
    by blast
qed

text \<open>A product whose first image is a URL between a no-break space and a byte order mark.\<close>

lemma wrapped_images:
  "images (cherry\<lparr>images := Some [[160] @ ascii ''https://x.test/c.png'' @ [65279]]\<rparr>)
     = Some (([160] @ ascii ''https://x.test/c.png'' @ [65279]) # [])"
  "images apple = Some ((ascii '' '' @ ascii ''https://cdn.example.com/apple.png'' @ ascii '' '') # [])"
  "images banana = Some (([] @ ascii ''//cdn.example.com/banana.png'' @ []) # [])"
  "images (banana\<lparr>images := Some [ascii ''data:image/png;base64,AAAA'']\<rparr>)
     = Some (([] @ ascii ''data:image/png;base64,AAAA'' @ []) # [])"
  by (simp_all add: apple_def banana_def ascii_def)

theorem createTableRow_image_witness:
  "row_image (createTableRow apple 1) = ascii ''https://cdn.example.com/apple.png'' \<and>
   row_image (createTableRow
      (cherry\<lparr>images := Some [[160] @ ascii ''https://x.test/c.png'' @ [65279]]\<rparr>) 1)
     = ascii ''https://x.test/c.png'' \<and>
   row_image (createTableRow banana 2) = placeholder \<and>
   row_image (createTableRow
      (banana\<lparr>images := Some [ascii ''data:image/png;base64,AAAA'']\<rparr>) 2) = placeholder \<and>
   row_image (createTableRow cherry 3) = placeholder \<and>
   row_image (createTableRow grape 4) = placeholder \<and>
   pageData loaded \<noteq> [] \<and>
   (\<exists>rows. tableBody (renderTable loaded) = Rows rows \<and>
      map row_id rows = [3, 1, 4, 2])"
proof -
  have sp: "\<forall>c\<in>set (ascii '' ''). is_space c" "\<forall>c\<in>set [160]. is_space c"
    "\<forall>c\<in>set [65279]. is_space c" "\<forall>c\<in>set ([] :: str). is_space c"
    by (simp_all add: ascii_def is_space_def)
  have core:
    "\<not> is_space (hd (ascii ''https://cdn.example.com/apple.png'')) \<and>
     \<not> is_space (last (ascii ''https://cdn.example.com/apple.png''))"
    "\<not> is_space (hd (ascii ''https://x.test/c.png'')) \<and>
     \<not> is_space (last (ascii ''https://x.test/c.png''))"
    "\<not> is_space (hd (ascii ''//cdn.example.com/banana.png'')) \<and>
     \<not> is_space (last (ascii ''//cdn.example.com/banana.png''))"
    "\<not> is_space (hd (ascii ''data:image/png;base64,AAAA'')) \<and>
     \<not> is_space (last (ascii ''data:image/png;base64,AAAA''))"
    by (simp_all add: ascii_def is_space_def)
  have http:
    "\<exists>r. ascii ''https://cdn.example.com/apple.png'' = ascii ''http'' @ r"
    "\<exists>r. ascii ''https://x.test/c.png'' = ascii ''http'' @ r"
    "\<nexists>r. ascii ''//cdn.example.com/banana.png'' = ascii ''http'' @ r"
    "\<nexists>r. ascii ''data:image/png;base64,AAAA'' = ascii ''http'' @ r"
    by (simp_all add: ascii_def)
  have none: "images cherry = None \<or> images cherry = Some []"
    "images grape = None \<or> images grape = Some []"
    by (simp_all add: cherry_def grape_def)
  have "pageData loaded = map (\<lambda>i. catalog ! i) [0 ..< length catalog]"
    by (simp add: pageData_def startIndex_def endIndex_def loaded_fields slice_def
        slice_indices_def relative_index_def length_catalog)
  then have pd: "pageData loaded = catalog" by (simp only: map_nth)
  have ids: "map ident catalog = [3, 1, 4, 2]"
    by (simp add: catalog_def apple_def banana_def cherry_def grape_def)
  have 1: "row_image (createTableRow apple 1) = ascii ''https://cdn.example.com/apple.png''"
    using createTableRow_image [of apple 1 "ascii '' ''"
        "ascii ''https://cdn.example.com/apple.png''" "ascii '' ''" "[]" loaded]
      wrapped_images(2) sp(1) core(1) http(1)
    by blast
  have 2: "row_image (createTableRow
      (cherry\<lparr>images := Some [[160] @ ascii ''https://x.test/c.png'' @ [65279]]\<rparr>) 1)
     = ascii ''https://x.test/c.png''"
    using createTableRow_image
        [of "cherry\<lparr>images := Some [[160] @ ascii ''https://x.test/c.png'' @ [65279]]\<rparr>" 1
          "[160]" "ascii ''https://x.test/c.png''" "[65279]" "[]" loaded]
      wrapped_images(1) sp(2,3) core(2) http(2)
    by blast
  have 3: "row_image (createTableRow banana 2) = placeholder"
    using createTableRow_image [of banana 2 "[]" "ascii ''//cdn.example.com/banana.png''"
        "[]" "[]" loaded]
      wrapped_images(3) sp(4) core(3) http(3)
    by blast
  have 4: "row_image (createTableRow
      (banana\<lparr>images := Some [ascii ''data:image/png;base64,AAAA'']\<rparr>) 2) = placeholder"
    using createTableRow_image
        [of "banana\<lparr>images := Some [ascii ''data:image/png;base64,AAAA'']\<rparr>" 2
          "[]" "ascii ''data:image/png;base64,AAAA''" "[]" "[]" loaded]
      wrapped_images(4) sp(4) core(4) http(4)
    by blast
  have 5: "row_image (createTableRow cherry 3) = placeholder"
    using createTableRow_image [of cherry 3 "[]" "[]" "[]" "[]" loaded] none(1) by blast
  have 6: "row_image (createTableRow grape 4) = placeholder"
    using createTableRow_image [of grape 4 "[]" "[]" "[]" "[]" loaded] none(2) by blast
  have ne: "pageData loaded \<noteq> []" by (simp add: pd catalog_def)
  have 7: "\<exists>rows. tableBody (renderTable loaded) = Rows rows \<and> map row_id rows = [3, 1, 4, 2]"
    using createTableRow_image [of cherry 3 "[]" "[]" "[]" "[]" loaded] ne
    by (auto simp: pd ids)
  show ?thesis by (intro conjI 1 2 3 4 5 6 ne 7)
qed

end
